theory Spec2Isabelle
  imports Complex_Main
begin

chapter \<open>Tone bursts: generation and analysis\<close>

text \<open>
  A shallow embedding of the class \<^verbatim>\<open>toneBurst\<close> (toneBurst.h, toneBurst.cpp) and of the
  generator program (tbg.cpp), followed by the properties of the burst sequence, of the
  stream sizes and of the correlation that the specification states.
\<close>

section \<open>Machine numbers\<close>

text \<open>
  The programs check \<^verbatim>\<open>sizeof(long) == 4\<close> and \<^verbatim>\<open>sizeof(short) == 2\<close> on entry.
  A \<^verbatim>\<open>long\<close> is modelled as an integer kept in the 32-bit two's complement range: every
  arithmetic result goes through \<open>wrap_long\<close>, so an overflow wraps around as it does on
  the Intel processors the programs are written for. A \<^verbatim>\<open>short\<close> is treated likewise with
  16 bits. A \<^verbatim>\<open>double\<close> is modelled as a real number: arithmetic is exact; rounding,
  infinities and NaN are outside the model. Where the C++ would divide by zero the
  modelled operation yields \<open>None\<close>.
\<close>

type_synonym long = int

type_synonym short = int

type_synonym double = real

definition wrap_long :: "int \<Rightarrow> long" where
  "wrap_long k = signed_take_bit 31 k"

definition wrap_short :: "int \<Rightarrow> short" where
  "wrap_short k = signed_take_bit 15 k"

text \<open>
  \<^verbatim>\<open>long(x)\<close> truncates towards zero. Out of range the Intel conversion instruction
  yields the most negative value.
\<close>

definition long_of_double :: "double \<Rightarrow> long" where
  "long_of_double x =
     (if - (2 ^ 31) - 1 < x \<and> x < 2 ^ 31
      then (if 0 \<le> x then \<lfloor>x\<rfloor> else \<lceil>x\<rceil>)
      else - (2 ^ 31))"

text \<open>\<^verbatim>\<open>short(x)\<close>: the same conversion, of which the low 16 bits are kept.\<close>

definition short_of_double :: "double \<Rightarrow> short" where
  "short_of_double x = wrap_short (long_of_double x)"

section \<open>Constants of toneBurst.h\<close>

definition SAMPLE_RATE :: long where "SAMPLE_RATE = 44100"

definition INTERVAL :: long where "INTERVAL = 22050"

definition BURST_LENGTH :: long where "BURST_LENGTH = 100"

definition AMPLITUDE :: double where "AMPLITUDE = 12000"

section \<open>The tone burst object\<close>

record toneBurst =
  sampleRate :: long
  duration :: long
  interval :: long
  burstMin :: long
  numBurst :: long
  burstCount :: long
  numCycle :: long
  nominalFreq :: double
  actualFreq :: double
  stopFreq :: double
  freqIncr :: double
  factor :: double
  sweep :: bool
  startFreq :: double
  delay :: long
  numAvg :: long

subsection \<open>calc\<close>

text \<open>
  The search loop of \<^verbatim>\<open>calc\<close>:
  \<^verbatim>\<open>while ((sampleRate / nominalFreq) * numCycle < burstMin){numCycle++;}\<close>
  The first argument is the quotient \<^verbatim>\<open>sampleRate / nominalFreq\<close>. The loop need not
  end, so it is a partial function: \<open>None\<close> means it runs forever.
\<close>

partial_function (option) calc_loop :: "double \<Rightarrow> long \<Rightarrow> long \<Rightarrow> long option" where
  "calc_loop q bmin n =
     (if q * real_of_int n < real_of_int bmin
      then calc_loop q bmin (wrap_long (n + 1))
      else Some n)"

definition calc :: "toneBurst \<Rightarrow> toneBurst option" where
  "calc s =
     (if nominalFreq s = 0 \<or> sampleRate s = 0 then None
      else
        case calc_loop (real_of_int (sampleRate s) / nominalFreq s) (burstMin s) (numCycle s) of
          None \<Rightarrow> None
        | Some n \<Rightarrow>
            let d = long_of_double ((real_of_int (sampleRate s) / nominalFreq s) * real_of_int n)
            in if d = 0 then None
               else
                 let af = 1.0 * real_of_int (sampleRate s) * real_of_int n / real_of_int d
                 in Some (s\<lparr>numCycle := n, duration := d, actualFreq := af,
                            factor := 2.0 * pi * af / real_of_int (sampleRate s)\<rparr>))"

subsection \<open>Constructor, init, reset, next, good\<close>

definition toneBurst_fields :: toneBurst where
  "toneBurst_fields =
     \<lparr>sampleRate = SAMPLE_RATE, duration = 0, interval = INTERVAL, burstMin = BURST_LENGTH,
      numBurst = 201, burstCount = 0, numCycle = 1, nominalFreq = 100.0, actualFreq = 0.0,
      stopFreq = 10000.0, freqIncr = 1.0, factor = 0, sweep = True, startFreq = 100.0,
      delay = INTERVAL, numAvg = 1\<rparr>"

text \<open>
  The constructor assigns every data member except \<^verbatim>\<open>factor\<close>, then calls
  \<^verbatim>\<open>calc\<close>, which assigns \<^verbatim>\<open>factor\<close>; the 0 above is never read.
\<close>

definition toneBurst_ctor :: "toneBurst option" where
  "toneBurst_ctor = calc toneBurst_fields"

definition init :: "bool \<Rightarrow> toneBurst \<Rightarrow> toneBurst" where
  "init theSweep s =
     (let s1 = s\<lparr>sweep := theSweep\<rparr>
      in if sweep s1
         then s1\<lparr>numBurst := 201, startFreq := 100.0, stopFreq := 10000.0\<rparr>
         else
           (let s2 = s1\<lparr>numBurst := 72, startFreq := 1000.0\<rparr>;
                s3 = s2\<lparr>stopFreq := startFreq s2\<rparr>
            in s3\<lparr>interval := wrap_long (2 * INTERVAL)\<rparr>))"

text \<open>
  In the sweep branch \<^verbatim>\<open>pow(stopFreq/startFreq, 1.0/(numBurst - 1))\<close> is a real number
  only for a positive start frequency; otherwise the C++ value is an infinity or NaN
  and the model stops with \<open>None\<close>.
\<close>

definition reset :: "toneBurst \<Rightarrow> toneBurst option" where
  "reset s =
     (let s1 = s\<lparr>numCycle := 1, burstCount := numBurst s, nominalFreq := startFreq s\<rparr>
      in if sweep s1
         then
           (let s2 = s1\<lparr>numBurst := 201, stopFreq := 10000\<rparr>
            in if startFreq s2 \<le> 0 then None
               else calc (s2\<lparr>freqIncr :=
                     (stopFreq s2 / startFreq s2) powr
                       (1.0 / real_of_int (wrap_long (numBurst s2 - 1)))\<rparr>))
         else
           (let s2 = s1\<lparr>numBurst := 72\<rparr>
            in calc (s2\<lparr>stopFreq := startFreq s2, freqIncr := 1.0\<rparr>)))"

text \<open>\<^verbatim>\<open>toneBurst::next\<close>; the name \<open>next\<close> is reserved in Isabelle.\<close>

definition nextBurst :: "toneBurst \<Rightarrow> (bool \<times> toneBurst) option" where
  "nextBurst s =
     (if burstCount s > 0
      then
        (if sweep s
         then
           (case calc (s\<lparr>nominalFreq := nominalFreq s * freqIncr s\<rparr>) of
              None \<Rightarrow> None
            | Some s1 \<Rightarrow> Some (True, s1\<lparr>burstCount := wrap_long (burstCount s1 - 1)\<rparr>))
         else Some (True, s\<lparr>burstCount := wrap_long (burstCount s - 1)\<rparr>))
      else Some (False, s))"

definition good :: "toneBurst \<Rightarrow> bool" where
  "good s = (burstCount s > 0)"

subsection \<open>getSize and the chunk headers of tbg.cpp\<close>

definition getSize :: "toneBurst \<Rightarrow> long" where
  "getSize s =
     wrap_long (wrap_long (2 * 2) *
       wrap_long (wrap_long (wrap_long (interval s * numAvg s) * numBurst s) + delay s))"

record chunkHead =
  chunkID :: string
  chunkSize :: long

record riffChunk = chunkHead +
  format :: string

definition riff_setSize :: "long \<Rightarrow> riffChunk" where
  "riff_setSize theSize =
     \<lparr>chunkID = ''RIFF'', chunkSize = wrap_long (theSize + 36), format = ''WAVE''\<rparr>"

definition data_setSize :: "long \<Rightarrow> chunkHead" where
  "data_setSize theSize = \<lparr>chunkID = ''data'', chunkSize = theSize\<rparr>"

subsection \<open>write: synthesis of one burst\<close>

text \<open>
  The output file is the list of 16-bit samples written so far; each
  \<^verbatim>\<open>outfile.write((char *)&a, 2)\<close> appends one sample. Stream failures are not
  modelled. The methods are not \<^verbatim>\<open>const\<close>, so the object is threaded through the loop
  body and returned.
\<close>

definition write_body :: "long \<Rightarrow> toneBurst \<times> short list \<Rightarrow> toneBurst \<times> short list" where
  "write_body j st =
     (let (s, outfile) = st;
          a = (if j < duration s
               then
                 (let y = cos (factor s * real_of_int j) - cos (2.0 * factor s * real_of_int j)
                  in short_of_double (y * AMPLITUDE))
               else 0)
      in (s, outfile @ [a, a]))"

text \<open>\<^verbatim>\<open>toneBurst::write\<close>; the name \<open>write\<close> is reserved in Isabelle.\<close>

definition writeBurst :: "toneBurst \<Rightarrow> short list \<Rightarrow> toneBurst \<times> short list" where
  "writeBurst s outfile =
     fold (\<lambda>i. fold write_body [0..interval s - 1]) [0..numAvg s - 1] (s, outfile)"

subsection \<open>read: correlation of one burst\<close>

text \<open>
  The input file is the list of samples not yet consumed. A read at the end of the
  file fails and leaves the variable as it was.
\<close>

record correlator =
  a1 :: short
  a2 :: short
  sum1 :: complex
  sum2 :: complex
  sum3 :: complex
  sum4 :: complex

fun get_short :: "short \<Rightarrow> short list \<Rightarrow> short \<times> short list" where
  "get_short a [] = (a, [])"
| "get_short a (x # xs) = (x, xs)"

definition in_signal :: "toneBurst \<Rightarrow> long \<Rightarrow> bool" where
  "in_signal s j = (j < duration s)"

definition in_background :: "toneBurst \<Rightarrow> long \<Rightarrow> bool" where
  "in_background s j =
     ((j < wrap_long (interval s - duration s)) \<and>
      (j \<ge> wrap_long (interval s - wrap_long (2 * duration s))))"

definition read_body ::
  "long \<Rightarrow> toneBurst \<times> correlator \<times> short list \<Rightarrow> toneBurst \<times> correlator \<times> short list" where
  "read_body j st =
     (let (s, c, infile) = st;
          cfactor = Complex 0 (factor s);
          (x1, infile) = get_short (a1 c) infile;
          (x2, infile) = get_short (a2 c) infile;
          c = c\<lparr>a1 := x1, a2 := x2\<rparr>;
          c = (if in_signal s j
               then
                 (let ccoeff = exp (cfactor * of_int j)
                  in c\<lparr>sum1 := sum1 c + of_int (a1 c) * ccoeff,
                       sum2 := sum2 c + of_int (a2 c) * ccoeff\<rparr>)
               else c);
          c = (if in_background s j
               then
                 (let ccoeff = exp (cfactor * of_int j)
                  in c\<lparr>sum3 := sum3 c + of_int (a1 c) * ccoeff,
                       sum4 := sum4 c + of_int (a2 c) * ccoeff\<rparr>)
               else c)
      in (s, c, infile))"

definition read_init :: correlator where
  "read_init = \<lparr>a1 = 0, a2 = 0, sum1 = 0, sum2 = 0, sum3 = 0, sum4 = 0\<rparr>"

definition read_loops ::
  "toneBurst \<Rightarrow> short list \<Rightarrow> toneBurst \<times> correlator \<times> short list" where
  "read_loops s infile =
     fold (\<lambda>i. fold read_body [0..interval s - 1]) [0..numAvg s - 1] (s, read_init, infile)"

text \<open>
  After the loops the four sums are divided by
  \<^verbatim>\<open>duration * numAvg * AMPLITUDE / 2.0\<close>; the printed columns are functions of the
  four quotients. A zero divisor gives no report in the model.
\<close>

definition read ::
  "toneBurst \<Rightarrow> short list \<Rightarrow> toneBurst \<times> correlator option \<times> short list" where
  "read s infile =
     (let (s1, c, rest) = read_loops s infile;
          d = real_of_int (wrap_long (duration s1 * numAvg s1)) * AMPLITUDE / 2.0
      in (s1,
          (if d = 0 then None
           else Some (c\<lparr>sum1 := sum1 c / complex_of_real d, sum2 := sum2 c / complex_of_real d,
                        sum3 := sum3 c / complex_of_real d, sum4 := sum4 c / complex_of_real d\<rparr>)),
          rest))"

subsection \<open>The generator program tbg.cpp\<close>

text \<open>
  The command line after \<^verbatim>\<open>atol\<close> and \<^verbatim>\<open>atof\<close>, by argument count: delay, averaging,
  start frequency, and whether the mode word starts with P. The cases of the
  \<^verbatim>\<open>switch\<close> fall through, from the mode down to the delay.
\<close>

datatype cmdline =
    Argc2
  | Argc3 long
  | Argc4 long long
  | Argc5 long long double
  | Argc6 long long double bool

fun configure :: "cmdline \<Rightarrow> toneBurst \<Rightarrow> toneBurst" where
  "configure Argc2 s = s"
| "configure (Argc3 d) s = s\<lparr>delay := d\<rparr>"
| "configure (Argc4 d n) s = s\<lparr>numAvg := n, delay := d\<rparr>"
| "configure (Argc5 d n f) s = s\<lparr>startFreq := f, numAvg := n, delay := d\<rparr>"
| "configure (Argc6 d n f p) s =
     (if p then init False s else s)\<lparr>startFreq := f, numAvg := n, delay := d\<rparr>"

definition delay_loop :: "toneBurst \<Rightarrow> short list \<Rightarrow> short list" where
  "delay_loop s outfile = fold (\<lambda>i out. out @ [0, 0]) [0..delay s - 1] outfile"

subsection \<open>The main loop of the generator\<close>

text \<open>
  The loop ends because each call of \<open>next\<close> that returns lowers \<open>burstCount\<close> and
  \<open>write\<close> returns the object it was given; the lemmas below are what the termination
  proof needs.
\<close>

lemma wrap_long_id: "- (2 ^ 31) \<le> k \<Longrightarrow> k < 2 ^ 31 \<Longrightarrow> wrap_long k = k"
  unfolding wrap_long_def by (rule signed_take_bit_int_eq_self) simp_all

lemma wrap_long_le: "0 \<le> k \<Longrightarrow> wrap_long k \<le> k"
proof (cases "k < 2 ^ 31")
  case True
  assume "0 \<le> k"
  with True show ?thesis by (simp add: wrap_long_id)
next
  case False
  have "wrap_long k < 2 ^ 31"
    unfolding wrap_long_def by (rule signed_take_bit_int_less_exp)
  with False show ?thesis by simp
qed

lemma fold_fst_inv:
  assumes "\<And>x st. fst (f x st) = fst st"
  shows "fst (fold f xs st) = fst st"
  using assms by (induction xs arbitrary: st) simp_all

lemma write_body_fst: "fst (write_body j st) = fst st"
  by (simp add: write_body_def Let_def split: prod.splits)

lemma writeBurst_fst: "fst (writeBurst s outfile) = s"
proof -
  have inner: "\<And>js st. fst (fold write_body js st) = fst st"
    by (rule fold_fst_inv) (rule write_body_fst)
  have "fst (fold (\<lambda>i. fold write_body [0..interval s - 1]) [0..numAvg s - 1] (s, outfile)) =
        fst (s, outfile)"
    by (rule fold_fst_inv) (rule inner)
  then show ?thesis by (simp add: writeBurst_def)
qed

lemma calc_burstCount: "calc s = Some s1 \<Longrightarrow> burstCount s1 = burstCount s"
  by (auto simp: calc_def Let_def split: if_splits option.splits)

lemma nextBurst_decreases:
  "burstCount s > 0 \<Longrightarrow> nextBurst s = Some (b, s2) \<Longrightarrow> burstCount s2 < burstCount s"
  using wrap_long_le [of "burstCount s - 1"]
  by (auto simp: nextBurst_def split: if_splits option.splits dest!: calc_burstCount)

lemma read_body_fst: "fst (read_body j st) = fst st"
  by (simp add: read_body_def Let_def split: prod.splits)

lemma read_loops_fst: "fst (read_loops s infile) = s"
proof -
  have inner: "\<And>js st. fst (fold read_body js st) = fst st"
    by (rule fold_fst_inv) (rule read_body_fst)
  have "fst (fold (\<lambda>i. fold read_body [0..interval s - 1]) [0..numAvg s - 1]
               (s, read_init, infile)) = fst (s, read_init, infile)"
    by (rule fold_fst_inv) (rule inner)
  then show ?thesis by (simp add: read_loops_def)
qed

lemma read_fst: "fst (read s infile) = s"
  using read_loops_fst [of s infile]
  by (cases "read_loops s infile") (simp add: read_def Let_def)

text \<open>
  \<^verbatim>\<open>for(myBurst.reset(); myBurst.good(); myBurst.next()) { myBurst.write(outfile); ... }\<close>
  after the call of \<^verbatim>\<open>reset\<close>. A call of \<^verbatim>\<open>next\<close> that does not return ends the model's
  run with \<open>None\<close>.
\<close>

function burst_loop :: "toneBurst \<Rightarrow> short list \<Rightarrow> (toneBurst \<times> short list) option" where
  "burst_loop s outfile =
     (if good s
      then
        (let (s1, out1) = writeBurst s outfile
         in case nextBurst s1 of
              None \<Rightarrow> None
            | Some (b, s2) \<Rightarrow> burst_loop s2 out1)
      else Some (s, outfile))"
  by pat_completeness auto
termination
proof (relation "measure (\<lambda>(s, outfile). nat (burstCount s))", goal_cases)
  case 1
  show ?case by simp
next
  case 2
  then show ?case
    using writeBurst_fst nextBurst_decreases
    by (metis (no_types, lifting) fst_conv good_def in_measure case_prod_conv nat_mono_iff)
qed

text \<open>
  The run of \<^verbatim>\<open>main\<close> from the constructor on, for a command line with a file name:
  the two size fields of the header and the samples that follow the 44 header bytes.
\<close>

definition tbg :: "cmdline \<Rightarrow> (riffChunk \<times> chunkHead \<times> short list) option" where
  "tbg args =
     (case toneBurst_ctor of
        None \<Rightarrow> None
      | Some s0 \<Rightarrow>
          let myBurst = configure args s0;
              theSize = getSize myBurst;
              myRiff = riff_setSize theSize;
              myData = data_setSize theSize;
              outfile = delay_loop myBurst []
          in case reset myBurst of
               None \<Rightarrow> None
             | Some s1 \<Rightarrow>
                 (case burst_loop s1 outfile of
                    None \<Rightarrow> None
                  | Some (s2, out) \<Rightarrow> Some (myRiff, myData, out)))"

declare burst_loop.simps [simp del]

subsection \<open>The analyzer program tba.cpp\<close>

text \<open>
  The input file is the header, which \<^verbatim>\<open>main\<close> reads and prints, and the samples after it.
  The stream sets its end-of-file flag when a read finds fewer bytes than it asks for.
  The delay loop asks for \<open>delay\<close> pairs of samples and discards them.
\<close>

definition skip_loop :: "toneBurst \<Rightarrow> short list \<Rightarrow> (short list \<times> bool)" where
  "skip_loop s infile =
     (snd (fold (\<lambda>i (a, f). let (a, f) = get_short a f; (a, f) = get_short a f in (a, f))
             [0..delay s - 1] (0, infile)),
      length infile < 2 * nat (delay s))"

text \<open>
  \<^verbatim>\<open>toneBurst::read\<close> asks for \<open>numAvg * interval\<close> pairs; this is whether it runs past the
  end of the file, which sets the flag.
\<close>

definition read_past_end :: "toneBurst \<Rightarrow> short list \<Rightarrow> bool" where
  "read_past_end s infile = (length infile < 2 * (nat (numAvg s) * nat (interval s)))"

text \<open>
  How \<^verbatim>\<open>main\<close> ends once the header is read: \<^verbatim>\<open>return 0\<close>, or \<^verbatim>\<open>return -4\<close> when the flag is
  found set before a burst.
\<close>

datatype exit = Done | ReadFailed

text \<open>
  \<^verbatim>\<open>for(myBurst.reset(); myBurst.good(); myBurst.next())\<close> of the analyzer, after the call
  of \<^verbatim>\<open>reset\<close>. Each pass prints one line: the columns of \<^verbatim>\<open>showDetail\<close>, which are
  members of the object, and the columns of \<^verbatim>\<open>read\<close>, which are functions of the four
  sums. A line of the model is the object and what \<open>read\<close> returns.
\<close>

function analyze_loop ::
  "toneBurst \<Rightarrow> short list \<Rightarrow> bool \<Rightarrow> (toneBurst \<times> correlator option) list \<Rightarrow>
   (exit \<times> (toneBurst \<times> correlator option) list) option" where
  "analyze_loop s infile eof lines =
     (if good s
      then
        (if eof then Some (ReadFailed, lines)
         else
           (let (s1, res, rest) = read s infile
            in case nextBurst s1 of
                 None \<Rightarrow> None
               | Some (b, s2) \<Rightarrow>
                   analyze_loop s2 rest (read_past_end s infile) (lines @ [(s, res)])))
      else Some (Done, lines))"
  by pat_completeness auto
termination
proof (relation "measure (\<lambda>(s, infile, eof, lines). nat (burstCount s))", goal_cases)
  case 1
  show ?case by simp
next
  case 2
  then show ?case
    using read_fst nextBurst_decreases
    by (metis (no_types, lifting) fst_conv good_def in_measure case_prod_conv nat_mono_iff)
qed

declare analyze_loop.simps [simp del]

text \<open>
  The run of \<^verbatim>\<open>main\<close> from the constructor on, for a command line with a file name and a
  file that has its header.
\<close>

definition tba ::
  "cmdline \<Rightarrow> riffChunk \<times> chunkHead \<times> short list \<Rightarrow>
   (exit \<times> (toneBurst \<times> correlator option) list) option" where
  "tba args file =
     (case toneBurst_ctor of
        None \<Rightarrow> None
      | Some s0 \<Rightarrow>
          let myBurst = configure args s0;
              (myRiff, myData, samples) = file;
              (infile, eof) = skip_loop myBurst samples
          in (case reset myBurst of
                None \<Rightarrow> None
              | Some s1 \<Rightarrow> analyze_loop s1 infile eof []))"

section \<open>Objects and terms the statements name\<close>

subsection \<open>Objects the programs build\<close>

text \<open>
  The values of some objects, written out so that statements can name them. The lemmas
  \<open>ctor_value\<close>, \<open>reset_init_polar\<close>, \<open>reset_default\<close>, \<open>reset_descending\<close>, \<open>reset_5Hz\<close>,
  \<open>reset_3Hz\<close>, \<open>reset_14700\<close> and \<open>reset_22050\<close> below show that the constructor and \<open>reset\<close>
  return them.
\<close>

text \<open>The object the constructor builds.\<close>

definition default_burst :: toneBurst where
  "default_burst =
     toneBurst_fields\<lparr>numCycle := 1, duration := 441, actualFreq := 100,
       factor := 2 * pi * 100 / 44100\<rparr>"

text \<open>After \<open>init(false)\<close> and \<open>reset\<close>: polar mode at 1000 Hz.\<close>

definition polar_burst :: toneBurst where
  "polar_burst =
     default_burst\<lparr>sweep := False, numBurst := 72, startFreq := 1000, stopFreq := 1000,
       interval := 44100, numCycle := 3, burstCount := 72, nominalFreq := 1000,
       freqIncr := 1, duration := 132, actualFreq := 44100 * 3 / 132,
       factor := 2 * pi * (44100 * 3 / 132) / 44100\<rparr>"

text \<open>After \<open>reset\<close> alone: the sweep from 100 Hz.\<close>

definition sweep_burst :: toneBurst where
  "sweep_burst = default_burst\<lparr>burstCount := 201, freqIncr := 100 powr (1 / 200)\<rparr>"

text \<open>After \<open>reset\<close> with the start frequencies 20000, 14700, 22050, 5 and 3.\<close>

definition descending_burst :: toneBurst where
  "descending_burst =
     default_burst\<lparr>startFreq := 20000, nominalFreq := 20000, burstCount := 201,
       freqIncr := (1 / 2) powr (1 / 200), numCycle := 46, duration := 101,
       actualFreq := 44100 * 46 / 101, factor := 2 * pi * (44100 * 46 / 101) / 44100\<rparr>"

definition burst_14700 :: toneBurst where
  "burst_14700 =
     default_burst\<lparr>startFreq := 14700, nominalFreq := 14700, burstCount := 201,
       freqIncr := (10000 / 14700) powr (1 / 200), numCycle := 34, duration := 102,
       actualFreq := 14700, factor := 2 * pi * 14700 / 44100\<rparr>"

definition burst_22050 :: toneBurst where
  "burst_22050 =
     default_burst\<lparr>startFreq := 22050, nominalFreq := 22050, burstCount := 201,
       freqIncr := (10000 / 22050) powr (1 / 200), numCycle := 50, duration := 100,
       actualFreq := 22050, factor := 2 * pi * 22050 / 44100\<rparr>"

definition burst_5Hz :: toneBurst where
  "burst_5Hz =
     default_burst\<lparr>startFreq := 5, nominalFreq := 5, burstCount := 201,
       freqIncr := 2000 powr (1 / 200), numCycle := 1, duration := 8820,
       actualFreq := 5, factor := 2 * pi * 5 / 44100\<rparr>"

definition burst_3Hz :: toneBurst where
  "burst_3Hz =
     default_burst\<lparr>startFreq := 3, nominalFreq := 3, burstCount := 201,
       freqIncr := (10000 / 3) powr (1 / 200), numCycle := 1, duration := 14700,
       actualFreq := 3, factor := 2 * pi * 3 / 44100\<rparr>"

subsection \<open>Objects a program can hold, and repeated stepping\<close>

text \<open>
  The objects a program can hold: built by the constructor, then changed through the
  public members only. \<open>startFreq\<close>, \<open>delay\<close> and \<open>numAvg\<close> are public data members.
\<close>

inductive reachable :: "toneBurst \<Rightarrow> bool" where
  r_ctor: "toneBurst_ctor = Some s \<Longrightarrow> reachable s"
| r_init: "reachable s \<Longrightarrow> reachable (init theSweep s)"
| r_startFreq: "reachable s \<Longrightarrow> reachable (s\<lparr>startFreq := f\<rparr>)"
| r_delay: "reachable s \<Longrightarrow> reachable (s\<lparr>delay := d\<rparr>)"
| r_numAvg: "reachable s \<Longrightarrow> reachable (s\<lparr>numAvg := n\<rparr>)"
| r_reset: "reachable s \<Longrightarrow> reset s = Some s1 \<Longrightarrow> reachable s1"
| r_next: "reachable s \<Longrightarrow> nextBurst s = Some (b, s1) \<Longrightarrow> reachable s1"
| r_write: "reachable s \<Longrightarrow> writeBurst s outfile = (s1, out1) \<Longrightarrow> reachable s1"
| r_read: "reachable s \<Longrightarrow> read s infile = (s1, res, rest) \<Longrightarrow> reachable s1"

text \<open>Applying \<open>next\<close> a number of times, as the \<open>for\<close> loops of both programs do.\<close>

fun iter_next :: "nat \<Rightarrow> toneBurst \<Rightarrow> toneBurst option" where
  "iter_next 0 s = Some s"
| "iter_next (Suc k) s =
     (case nextBurst s of None \<Rightarrow> None | Some (b, s1) \<Rightarrow> iter_next k s1)"

subsection \<open>Parts of the loop bodies of write and read\<close>

text \<open>
  The sample that \<open>write\<close> sends to both channels at the index \<open>j\<close>, and the samples of a
  list of indices, each twice.
\<close>

definition burst_sample :: "toneBurst \<Rightarrow> long \<Rightarrow> short" where
  "burst_sample s j =
     (if j < duration s
      then short_of_double
             ((cos (factor s * real_of_int j) - cos (2 * factor s * real_of_int j)) * AMPLITUDE)
      else 0)"

definition stereo :: "toneBurst \<Rightarrow> long list \<Rightarrow> short list" where
  "stereo s js = concat (map (\<lambda>j. [burst_sample s j, burst_sample s j]) js)"

text \<open>
  The terms that \<open>read\<close> adds to a signal sum and to a background sum for the sample \<open>x\<close>
  at the index \<open>j\<close>.
\<close>

definition sig_term :: "toneBurst \<Rightarrow> long \<Rightarrow> short \<Rightarrow> complex" where
  "sig_term s j x =
     (if in_signal s j then of_int x * exp (Complex 0 (factor s) * of_int j) else 0)"

definition bkg_term :: "toneBurst \<Rightarrow> long \<Rightarrow> short \<Rightarrow> complex" where
  "bkg_term s j x =
     (if in_background s j then of_int x * exp (Complex 0 (factor s) * of_int j) else 0)"

text \<open>What \<open>read\<close> reports for the samples that \<open>write\<close> produces for the same object.\<close>

definition echo :: "toneBurst \<Rightarrow> correlator option" where
  "echo s = fst (snd (read s (snd (writeBurst s []))))"

section \<open>Evaluation lemmas\<close>

lemma calc_loop_exit:
  "\<not> q * real_of_int n < real_of_int bmin \<Longrightarrow> calc_loop q bmin n = Some n"
  by (subst calc_loop.simps) simp

lemma calc_loop_step:
  "q * real_of_int n < real_of_int bmin \<Longrightarrow>
   calc_loop q bmin n = calc_loop q bmin (wrap_long (n + 1))"
  by (subst calc_loop.simps) simp

lemma long_of_double_int:
  "- (2 ^ 31) \<le> k \<Longrightarrow> k < 2 ^ 31 \<Longrightarrow> long_of_double (real_of_int k) = k"
  unfolding long_of_double_def by (simp add: of_int_less_iff [symmetric] del: of_int_less_iff)

lemma ctor_value: "toneBurst_ctor = Some default_burst"
  unfolding toneBurst_ctor_def calc_def default_burst_def
  by (simp add: toneBurst_fields_def SAMPLE_RATE_def BURST_LENGTH_def INTERVAL_def calc_loop_exit
      long_of_double_int [of 441, simplified])

section \<open>The search loop of calc\<close>

lemma calc_loop_total:
  assumes "0 < q" "- (2 ^ 31) \<le> n" "n \<le> N" "N < 2 ^ 31" "real_of_int bmin \<le> q * real_of_int N"
  shows "\<exists>m. calc_loop q bmin n = Some m \<and> n \<le> m \<and> m \<le> N \<and>
             real_of_int bmin \<le> q * real_of_int m \<and>
             (\<forall>k. n \<le> k \<and> k < m \<longrightarrow> q * real_of_int k < real_of_int bmin)"
  using assms
proof (induction "nat (N - n)" arbitrary: n)
  case 0
  then have "n = N" by simp
  with 0 show ?case by (auto simp: calc_loop_exit)
next
  case (Suc d)
  show ?case
  proof (cases "q * real_of_int n < real_of_int bmin")
    case False
    with Suc.prems show ?thesis by (auto simp: calc_loop_exit)
  next
    case True
    have w: "wrap_long (n + 1) = n + 1"
      using Suc.prems Suc.hyps(2) by (intro wrap_long_id) linarith+
    have d: "d = nat (N - (n + 1))" using Suc.hyps(2) by linarith
    have le: "n + 1 \<le> N" using Suc.hyps(2) by linarith
    have lo: "- (2 ^ 31) \<le> n + 1" using Suc.prems(2) by linarith
    from Suc.hyps(1) [OF d Suc.prems(1) lo le Suc.prems(4) Suc.prems(5)]
    obtain m where m: "calc_loop q bmin (n + 1) = Some m" "n + 1 \<le> m" "m \<le> N"
      "real_of_int bmin \<le> q * real_of_int m"
      "\<forall>k. n + 1 \<le> k \<and> k < m \<longrightarrow> q * real_of_int k < real_of_int bmin"
      by blast
    have "calc_loop q bmin n = Some m"
      using calc_loop_step [OF True] w m(1) by simp
    moreover have "\<forall>k. n \<le> k \<and> k < m \<longrightarrow> q * real_of_int k < real_of_int bmin"
    proof (intro allI impI)
      fix k assume k: "n \<le> k \<and> k < m"
      show "q * real_of_int k < real_of_int bmin"
      proof (cases "k = n")
        case True
        with \<open>q * real_of_int n < real_of_int bmin\<close> show ?thesis by simp
      next
        case False
        with k m(5) show ?thesis by simp
      qed
    qed
    ultimately show ?thesis using m(2,3,4) by auto
  qed
qed

lemma long_of_double_floor:
  "0 \<le> x \<Longrightarrow> x < 2 ^ 31 \<Longrightarrow> long_of_double x = \<lfloor>x\<rfloor>"
  unfolding long_of_double_def by auto

lemma calc_total:
  assumes f: "0 < nominalFreq s" and sr: "0 < sampleRate s" and bm: "0 < burstMin s"
    and n: "1 \<le> numCycle s" "numCycle s \<le> N" "N < 2 ^ 31"
    and reach: "real_of_int (burstMin s) \<le> real_of_int (sampleRate s) / nominalFreq s * real_of_int N"
    and fits: "real_of_int (sampleRate s) / nominalFreq s * real_of_int N < 2 ^ 31"
  shows "\<exists>m d. calc s = Some (s\<lparr>numCycle := m, duration := d,
                 actualFreq := real_of_int (sampleRate s) * real_of_int m / real_of_int d,
                 factor := 2 * pi * (real_of_int (sampleRate s) * real_of_int m / real_of_int d)
                             / real_of_int (sampleRate s)\<rparr>) \<and>
           numCycle s \<le> m \<and> m \<le> N \<and>
           d = \<lfloor>real_of_int (sampleRate s) / nominalFreq s * real_of_int m\<rfloor> \<and>
           burstMin s \<le> d \<and>
           real_of_int (burstMin s) \<le> real_of_int (sampleRate s) / nominalFreq s * real_of_int m \<and>
           (\<forall>k. numCycle s \<le> k \<and> k < m \<longrightarrow>
                real_of_int (sampleRate s) / nominalFreq s * real_of_int k < real_of_int (burstMin s))"
proof -
  define q where "q = real_of_int (sampleRate s) / nominalFreq s"
  have q: "0 < q" using f sr by (simp add: q_def)
  have lo: "- (2 ^ 31) \<le> numCycle s" using n(1) by simp
  from calc_loop_total [OF q lo n(2) n(3) reach [folded q_def]]
  obtain m where m: "calc_loop q (burstMin s) (numCycle s) = Some m" "numCycle s \<le> m" "m \<le> N"
    "real_of_int (burstMin s) \<le> q * real_of_int m"
    "\<forall>k. numCycle s \<le> k \<and> k < m \<longrightarrow> q * real_of_int k < real_of_int (burstMin s)"
    by blast
  have m1: "1 \<le> m" using n(1) m(2) by simp
  have "q * real_of_int m \<le> q * real_of_int N"
    using q m(3) by simp
  then have up: "q * real_of_int m < 2 ^ 31" using fits [folded q_def] by simp
  have nonneg: "0 \<le> q * real_of_int m" using q m1 by simp
  define d where "d = \<lfloor>q * real_of_int m\<rfloor>"
  have ld: "long_of_double (q * real_of_int m) = d"
    unfolding d_def by (rule long_of_double_floor [OF nonneg up])
  have dge: "burstMin s \<le> d" unfolding d_def using m(4) by (simp add: le_floor_iff)
  then have d0: "d \<noteq> 0" using bm by simp
  have "calc s = Some (s\<lparr>numCycle := m, duration := d,
                 actualFreq := real_of_int (sampleRate s) * real_of_int m / real_of_int d,
                 factor := 2 * pi * (real_of_int (sampleRate s) * real_of_int m / real_of_int d)
                             / real_of_int (sampleRate s)\<rparr>)"
    using f sr m(1) ld d0 by (simp add: calc_def q_def [symmetric] Let_def)
  with m dge show ?thesis unfolding q_def d_def by blast
qed

lemma wrap_long_range: "- (2 ^ 31) \<le> wrap_long k \<and> wrap_long k < 2 ^ 31"
  unfolding wrap_long_def
  using signed_take_bit_int_less_exp [of 31 k] signed_take_bit_int_greater_eq_minus_exp [of 31 k]
  by simp

lemma calc_loop_result:
  assumes "calc_loop q bmin n = Some m"
  shows "real_of_int bmin \<le> q * real_of_int m \<and> (m = n \<or> (- (2 ^ 31) \<le> m \<and> m < 2 ^ 31))"
proof (rule calc_loop.raw_induct
    [where P = "\<lambda>q bmin n m. real_of_int bmin \<le> q * real_of_int m \<and>
                  (m = n \<or> (- (2 ^ 31) \<le> m \<and> m < 2 ^ 31))", OF _ assms])
  fix loop :: "double \<Rightarrow> long \<Rightarrow> long \<Rightarrow> long option" and q' bmin' n' m'
  assume IH: "\<And>q bmin n m. loop q bmin n = Some m \<Longrightarrow>
      real_of_int bmin \<le> q * real_of_int m \<and> (m = n \<or> (- (2 ^ 31) \<le> m \<and> m < 2 ^ 31))"
  assume step: "(if q' * real_of_int n' < real_of_int bmin'
      then loop q' bmin' (wrap_long (n' + 1)) else Some n') = Some m'"
  show "real_of_int bmin' \<le> q' * real_of_int m' \<and>
      (m' = n' \<or> (- (2 ^ 31) \<le> m' \<and> m' < 2 ^ 31))"
  proof (cases "q' * real_of_int n' < real_of_int bmin'")
    case True
    with step have "loop q' bmin' (wrap_long (n' + 1)) = Some m'" by simp
    from IH [OF this] wrap_long_range [of "n' + 1"] show ?thesis by auto
  next
    case False
    with step show ?thesis by simp
  qed
qed

section \<open>Size of the sample stream: the documented scenario\<close>

text \<open>
  Claim C2, as the code has it. With \<open>interval = 22050\<close>, \<open>numAvg = 1\<close>,
  \<open>numBurst = 201\<close> and \<open>delay = 22050\<close>, \<open>getSize\<close> returns
  \<open>2 * 2 * (22050 * 1 * 201 + 22050) = 17816400\<close>, and the size field that
  \<open>riffChunk::setSize\<close> stores is that count plus 36.
\<close>

theorem getSize_scenario:
  "interval s = 22050 \<Longrightarrow> numAvg s = 1 \<Longrightarrow> numBurst s = 201 \<Longrightarrow> delay s = 22050 \<Longrightarrow>
   getSize s = 17816400 \<and> chunkSize (riff_setSize (getSize s)) = getSize s + 36"
  by (simp add: getSize_def riff_setSize_def wrap_long_id)

theorem getSize_scenario_witness:
  "interval default_burst = 22050 \<and> numAvg default_burst = 1 \<and> numBurst default_burst = 201 \<and>
   delay default_burst = 22050 \<and> getSize default_burst = 17816400 \<and>
   chunkSize (riff_setSize (getSize default_burst)) = getSize default_burst + 36"
proof -
  have h: "interval default_burst = 22050" "numAvg default_burst = 1"
    "numBurst default_burst = 201" "delay default_burst = 22050"
    by (simp_all add: default_burst_def toneBurst_fields_def INTERVAL_def)
  from getSize_scenario [OF h] h show ?thesis by blast
qed

text \<open>
  Claim C2, as the specification words it: the byte count of the scenario is not
  1776600. The object is the one the constructor builds, which has the four values of
  the scenario.
\<close>

theorem getSize_scenario_counterexample:
  "toneBurst_ctor = Some default_burst \<and> interval default_burst = 22050 \<and>
   numAvg default_burst = 1 \<and> numBurst default_burst = 201 \<and> delay default_burst = 22050 \<and>
   getSize default_burst \<noteq> 1776600"
  by (simp add: ctor_value)
     (simp add: default_burst_def toneBurst_fields_def INTERVAL_def getSize_def wrap_long_id)

section \<open>Termination and result of calc\<close>

lemma calc_loop_diverges: "calc_loop (44100 / 10 ^ 12) 100 1 = None"
proof (rule ccontr)
  assume "calc_loop (44100 / 10 ^ 12) 100 1 \<noteq> None"
  then obtain m where m: "calc_loop (44100 / 10 ^ 12) 100 1 = Some m" by auto
  from calc_loop_result [OF m]
  have a: "real_of_int 100 \<le> 44100 / 10 ^ 12 * real_of_int m" and b: "m < 2 ^ 31" by auto
  from b have "real_of_int m < 2 ^ 31"
    by (metis of_int_less_iff of_int_numeral of_int_power)
  with a show False by simp
qed

text \<open>
  Claim C5, as amended. Let \<open>nominalFreq\<close> be positive, and let some cycle count \<open>N\<close>
  that a 32-bit \<open>long\<close> holds reach the minimum burst length with a sample count that a
  \<open>long\<close> holds too. Then \<open>calc\<close>, entered with \<open>1 \<le> numCycle \<le> N\<close>, returns, and
  in the object it returns \<open>numCycle \<ge> 1\<close> and \<open>duration \<ge> burstMin\<close>, the duration
  being the truncated product.
\<close>

theorem calc_yields:
  assumes "0 < nominalFreq s" and "0 < sampleRate s" and "0 < burstMin s"
    and "1 \<le> numCycle s" and "numCycle s \<le> N" and "N < 2 ^ 31"
    and "real_of_int (burstMin s) \<le> real_of_int (sampleRate s) / nominalFreq s * real_of_int N"
    and "real_of_int (sampleRate s) / nominalFreq s * real_of_int N < 2 ^ 31"
  shows "\<exists>s'. calc s = Some s' \<and> 1 \<le> numCycle s' \<and> burstMin s' \<le> duration s' \<and>
           duration s' = \<lfloor>real_of_int (sampleRate s) / nominalFreq s * real_of_int (numCycle s')\<rfloor>"
proof -
  from calc_total [OF assms] obtain m d where
    c: "calc s = Some (s\<lparr>numCycle := m, duration := d,
                 actualFreq := real_of_int (sampleRate s) * real_of_int m / real_of_int d,
                 factor := 2 * pi * (real_of_int (sampleRate s) * real_of_int m / real_of_int d)
                             / real_of_int (sampleRate s)\<rparr>)"
    and m: "numCycle s \<le> m"
    and d: "d = \<lfloor>real_of_int (sampleRate s) / nominalFreq s * real_of_int m\<rfloor>" "burstMin s \<le> d"
    by blast
  from m assms(4) have "1 \<le> m" by simp
  with c d show ?thesis by simp
qed

theorem calc_yields_witness:
  "0 < nominalFreq default_burst \<and> 0 < sampleRate default_burst \<and> 0 < burstMin default_burst \<and>
   1 \<le> numCycle default_burst \<and> numCycle default_burst \<le> 1 \<and>
   real_of_int (burstMin default_burst) \<le>
     real_of_int (sampleRate default_burst) / nominalFreq default_burst * real_of_int 1 \<and>
   real_of_int (sampleRate default_burst) / nominalFreq default_burst * real_of_int 1 < 2 ^ 31 \<and>
   (\<exists>s'. calc default_burst = Some s' \<and> 1 \<le> numCycle s' \<and> burstMin s' \<le> duration s' \<and>
      duration s' =
        \<lfloor>real_of_int (sampleRate default_burst) / nominalFreq default_burst *
          real_of_int (numCycle s')\<rfloor>)"
proof -
  have h: "0 < nominalFreq default_burst" "0 < sampleRate default_burst"
    "0 < burstMin default_burst" "1 \<le> numCycle default_burst" "numCycle default_burst \<le> 1"
    "(1::int) < 2 ^ 31"
    "real_of_int (burstMin default_burst) \<le>
       real_of_int (sampleRate default_burst) / nominalFreq default_burst * real_of_int 1"
    "real_of_int (sampleRate default_burst) / nominalFreq default_burst * real_of_int 1 < 2 ^ 31"
    by (simp_all add: default_burst_def toneBurst_fields_def SAMPLE_RATE_def BURST_LENGTH_def)
  from calc_yields [OF h] h show ?thesis by blast
qed

text \<open>
  Claim C5, as the specification words it, fails at the nominal frequency \<open>10 ^ 12\<close>:
  \<open>44100 / 10 ^ 12 * n\<close> stays below 100 for every \<open>n\<close> a 32-bit \<open>long\<close> holds, so the
  loop of \<open>calc\<close> never ends. The generator reaches that call through \<open>reset\<close> when
  its start frequency argument is \<open>1e12\<close>.
\<close>

theorem calc_yields_counterexample:
  "0 < nominalFreq (default_burst\<lparr>nominalFreq := 10 ^ 12\<rparr>) \<and>
   calc (default_burst\<lparr>nominalFreq := 10 ^ 12\<rparr>) = None \<and>
   reset (default_burst\<lparr>startFreq := 10 ^ 12\<rparr>) = None"
  using calc_loop_diverges
  by (simp add: calc_def reset_def Let_def default_burst_def toneBurst_fields_def SAMPLE_RATE_def
      BURST_LENGTH_def wrap_long_id)

section \<open>Objects a program can hold\<close>

lemma calc_counts:
  "calc s = Some s1 \<Longrightarrow> burstCount s1 = burstCount s \<and> numBurst s1 = numBurst s"
  by (auto simp: calc_def Let_def split: if_splits option.splits)

lemma reachable_counts:
  "reachable s \<Longrightarrow> 0 \<le> burstCount s \<and> burstCount s \<le> 201 \<and> (numBurst s = 201 \<or> numBurst s = 72)"
proof (induction rule: reachable.induct)
  case (r_ctor s)
  then show ?case by (simp add: ctor_value default_burst_def toneBurst_fields_def) auto
next
  case (r_init s theSweep)
  then show ?case by (simp add: init_def Let_def)
next
  case (r_reset s s1)
  then show ?case
    by (auto simp: reset_def Let_def split: if_splits dest!: calc_counts)
next
  case (r_next s b s1)
  then show ?case
    by (auto simp: nextBurst_def wrap_long_id split: if_splits option.splits
        dest!: calc_counts)
next
  case (r_write s outfile s1 out1)
  then show ?case using writeBurst_fst [of s outfile] by simp
next
  case (r_read s infile s1 res rest)
  then show ?case using read_fst [of s infile] by simp
qed simp_all

section \<open>Polar mode\<close>

lemma polar_next:
  "\<not> sweep s \<Longrightarrow> 0 < burstCount s \<Longrightarrow> burstCount s \<le> 2 ^ 31 \<Longrightarrow>
   nextBurst s = Some (True, s\<lparr>burstCount := burstCount s - 1\<rparr>)"
  by (simp add: nextBurst_def wrap_long_id)

lemma polar_iter:
  "\<not> sweep s \<Longrightarrow> int k \<le> burstCount s \<Longrightarrow> burstCount s \<le> 2 ^ 31 \<Longrightarrow>
   iter_next k s = Some (s\<lparr>burstCount := burstCount s - int k\<rparr>)"
proof (induction k arbitrary: s)
  case 0
  then show ?case by simp
next
  case (Suc k)
  let ?s1 = "s\<lparr>burstCount := burstCount s - 1\<rparr>"
  have n: "nextBurst s = Some (True, ?s1)"
    using Suc.prems by (intro polar_next) simp_all
  have "iter_next k ?s1 = Some (?s1\<lparr>burstCount := burstCount ?s1 - int k\<rparr>)"
    using Suc.prems by (intro Suc.IH) simp_all
  with n show ?case by (simp add: algebra_simps)
qed

lemma reset_polar:
  assumes "\<not> sweep s" "reset s = Some p"
  shows "\<not> sweep p \<and> burstCount p = numBurst s \<and> nominalFreq p = startFreq s"
  using assms
  by (auto simp: reset_def calc_def Let_def split: if_splits option.splits)

lemma reset_init_polar: "reset (init False default_burst) = Some polar_burst"
proof -
  have l: "calc_loop (441 / 10) 100 1 = Some 3"
    by (simp add: calc_loop_step wrap_long_id calc_loop_exit)
  have d: "long_of_double (1323 / 10) = 132"
    by (simp add: long_of_double_floor)
  show ?thesis
    by (simp add: reset_def init_def Let_def calc_def default_burst_def toneBurst_fields_def
        polar_burst_def SAMPLE_RATE_def BURST_LENGTH_def INTERVAL_def wrap_long_id l d)
qed

section \<open>Stepping in polar mode and at the end of the sequence\<close>

text \<open>
  Claim C7. \<open>init(false)\<close> leaves \<open>sweep\<close> false and \<open>numBurst = 72\<close>. From any such
  object, once \<open>reset\<close> has returned the object \<open>p\<close>: after \<open>k \<le> 72\<close> calls of \<open>next\<close>
  the object is \<open>p\<close> with \<open>burstCount = 72 - k\<close> and nothing else changed, so
  \<open>nominalFreq\<close>, \<open>actualFreq\<close>, \<open>numCycle\<close> and \<open>duration\<close> are those of \<open>p\<close>; and
  while bursts remain (\<open>k < 72\<close>) the next call returns true and only decrements
  \<open>burstCount\<close>.
\<close>

theorem polar_constant:
  assumes "\<not> sweep s" and "numBurst s = 72" and "reset s = Some p" and "k \<le> 72"
  shows "nominalFreq p = startFreq s \<and>
         iter_next k p = Some (p\<lparr>burstCount := 72 - int k\<rparr>) \<and>
         (k < 72 \<longrightarrow>
            nextBurst (p\<lparr>burstCount := 72 - int k\<rparr>) =
              Some (True, p\<lparr>burstCount := 72 - int k - 1\<rparr>))"
proof -
  from reset_polar [OF assms(1,3)] assms(2)
  have p: "\<not> sweep p" "burstCount p = 72" "nominalFreq p = startFreq s" by simp_all
  have "iter_next k p = Some (p\<lparr>burstCount := burstCount p - int k\<rparr>)"
    using p assms(4) by (intro polar_iter) simp_all
  moreover have "nextBurst (p\<lparr>burstCount := 72 - int k\<rparr>) =
      Some (True, p\<lparr>burstCount := 72 - int k - 1\<rparr>)" if "k < 72"
    using polar_next [of "p\<lparr>burstCount := 72 - int k\<rparr>"] p that by simp
  ultimately show ?thesis using p by simp
qed

theorem polar_constant_witness:
  "\<not> sweep (init False default_burst) \<and> numBurst (init False default_burst) = 72 \<and>
   reset (init False default_burst) = Some polar_burst \<and> (71::nat) \<le> 72 \<and>
   nominalFreq polar_burst = 1000 \<and>
   iter_next 71 polar_burst = Some (polar_burst\<lparr>burstCount := 1\<rparr>) \<and>
   nextBurst (polar_burst\<lparr>burstCount := 1\<rparr>) = Some (True, polar_burst\<lparr>burstCount := 0\<rparr>)"
proof -
  have h: "\<not> sweep (init False default_burst)" "numBurst (init False default_burst) = 72"
    "(71::nat) \<le> 72" "startFreq (init False default_burst) = 1000"
    by (simp_all add: init_def Let_def)
  from polar_constant [OF h(1,2) reset_init_polar h(3)] h reset_init_polar
  show ?thesis by simp
qed

text \<open>
  Claim C8. On every object a program can hold, \<open>good\<close> returns false exactly when
  \<open>burstCount\<close> is 0, and then \<open>next\<close> returns false and the object it leaves is the
  object it was given, field for field.
\<close>

theorem good_exhausted:
  assumes "reachable s"
  shows "(good s = False \<longleftrightarrow> burstCount s = 0) \<and>
         (burstCount s = 0 \<longrightarrow> nextBurst s = Some (False, s))"
  using reachable_counts [OF assms] by (auto simp: good_def nextBurst_def)

theorem good_exhausted_witness:
  "reachable default_burst \<and> burstCount default_burst = 0 \<and> good default_burst = False \<and>
   nextBurst default_burst = Some (False, default_burst)"
proof -
  have r: "reachable default_burst" by (rule r_ctor) (rule ctor_value)
  have b: "burstCount default_burst = 0" by (simp add: default_burst_def toneBurst_fields_def)
  from good_exhausted [OF r] r b show ?thesis by simp
qed

section \<open>Stepping in sweep mode\<close>

lemma sweep_step:
  assumes sw: "sweep s" and sr: "0 < sampleRate s" and bm: "0 < burstMin s"
    and bc: "0 < burstCount s" "burstCount s \<le> 2 ^ 31"
    and n: "1 \<le> numCycle s" "numCycle s \<le> N" "N < 2 ^ 31"
    and f: "0 < nominalFreq s * freqIncr s"
    and reach: "real_of_int (burstMin s) \<le>
                  real_of_int (sampleRate s) / (nominalFreq s * freqIncr s) * real_of_int N"
    and fits: "real_of_int (sampleRate s) / (nominalFreq s * freqIncr s) * real_of_int N < 2 ^ 31"
  shows "\<exists>s1. nextBurst s = Some (True, s1) \<and> sweep s1 \<and> sampleRate s1 = sampleRate s \<and>
           burstMin s1 = burstMin s \<and> burstCount s1 = burstCount s - 1 \<and>
           numCycle s \<le> numCycle s1 \<and> numCycle s1 \<le> N \<and>
           nominalFreq s1 = nominalFreq s * freqIncr s \<and> freqIncr s1 = freqIncr s"
proof -
  let ?t = "s\<lparr>nominalFreq := nominalFreq s * freqIncr s\<rparr>"
  have "\<exists>m d. calc ?t = Some (?t\<lparr>numCycle := m, duration := d,
                 actualFreq := real_of_int (sampleRate ?t) * real_of_int m / real_of_int d,
                 factor := 2 * pi * (real_of_int (sampleRate ?t) * real_of_int m / real_of_int d)
                             / real_of_int (sampleRate ?t)\<rparr>) \<and>
           numCycle ?t \<le> m \<and> m \<le> N \<and>
           d = \<lfloor>real_of_int (sampleRate ?t) / nominalFreq ?t * real_of_int m\<rfloor> \<and>
           burstMin ?t \<le> d \<and>
           real_of_int (burstMin ?t) \<le> real_of_int (sampleRate ?t) / nominalFreq ?t * real_of_int m \<and>
           (\<forall>k. numCycle ?t \<le> k \<and> k < m \<longrightarrow>
                real_of_int (sampleRate ?t) / nominalFreq ?t * real_of_int k < real_of_int (burstMin ?t))"
    using assms by (intro calc_total) simp_all
  then obtain m d where c: "calc ?t = Some (?t\<lparr>numCycle := m, duration := d,
                 actualFreq := real_of_int (sampleRate ?t) * real_of_int m / real_of_int d,
                 factor := 2 * pi * (real_of_int (sampleRate ?t) * real_of_int m / real_of_int d)
                             / real_of_int (sampleRate ?t)\<rparr>)"
    and m: "numCycle s \<le> m" "m \<le> N"
    by auto
  have w: "wrap_long (burstCount s - 1) = burstCount s - 1"
    using bc by (intro wrap_long_id) simp_all
  show ?thesis
    using sw bc(1) c m w by (simp add: nextBurst_def)
qed

lemma sweep_ladder:
  assumes "sweep s" and "0 < sampleRate s" and "0 < burstMin s"
    and "int k \<le> burstCount s" and "burstCount s \<le> 2 ^ 31"
    and "1 \<le> numCycle s" and "numCycle s \<le> N" and "N < 2 ^ 31"
    and "\<And>j. 1 \<le> j \<Longrightarrow> j \<le> k \<Longrightarrow>
           0 < nominalFreq s * freqIncr s ^ j \<and>
           real_of_int (burstMin s) \<le>
             real_of_int (sampleRate s) / (nominalFreq s * freqIncr s ^ j) * real_of_int N \<and>
           real_of_int (sampleRate s) / (nominalFreq s * freqIncr s ^ j) * real_of_int N < 2 ^ 31"
  shows "\<exists>s1. iter_next k s = Some s1 \<and> sweep s1 \<and> sampleRate s1 = sampleRate s \<and>
           burstMin s1 = burstMin s \<and> burstCount s1 = burstCount s - int k \<and>
           numCycle s \<le> numCycle s1 \<and> numCycle s1 \<le> N \<and>
           nominalFreq s1 = nominalFreq s * freqIncr s ^ k \<and> freqIncr s1 = freqIncr s"
  using assms
proof (induction k arbitrary: s)
  case 0
  then show ?case by simp
next
  case (Suc k)
  have b1: "0 < nominalFreq s * freqIncr s \<and>
           real_of_int (burstMin s) \<le>
             real_of_int (sampleRate s) / (nominalFreq s * freqIncr s) * real_of_int N \<and>
           real_of_int (sampleRate s) / (nominalFreq s * freqIncr s) * real_of_int N < 2 ^ 31"
    using Suc.prems(9) [of 1] by simp
  have "\<exists>s1. nextBurst s = Some (True, s1) \<and> sweep s1 \<and> sampleRate s1 = sampleRate s \<and>
           burstMin s1 = burstMin s \<and> burstCount s1 = burstCount s - 1 \<and>
           numCycle s \<le> numCycle s1 \<and> numCycle s1 \<le> N \<and>
           nominalFreq s1 = nominalFreq s * freqIncr s \<and> freqIncr s1 = freqIncr s"
    using Suc.prems(1-8) b1 by (intro sweep_step) simp_all
  then obtain s1 where s1: "nextBurst s = Some (True, s1)" "sweep s1"
    "sampleRate s1 = sampleRate s" "burstMin s1 = burstMin s" "burstCount s1 = burstCount s - 1"
    "numCycle s \<le> numCycle s1" "numCycle s1 \<le> N"
    "nominalFreq s1 = nominalFreq s * freqIncr s" "freqIncr s1 = freqIncr s"
    by blast
  have bj: "0 < nominalFreq s1 * freqIncr s1 ^ j \<and>
           real_of_int (burstMin s1) \<le>
             real_of_int (sampleRate s1) / (nominalFreq s1 * freqIncr s1 ^ j) * real_of_int N \<and>
           real_of_int (sampleRate s1) / (nominalFreq s1 * freqIncr s1 ^ j) * real_of_int N < 2 ^ 31"
    if "1 \<le> j" "j \<le> k" for j
    using Suc.prems(9) [of "Suc j"] that s1 by (simp add: mult.assoc)
  have "\<exists>s2. iter_next k s1 = Some s2 \<and> sweep s2 \<and> sampleRate s2 = sampleRate s1 \<and>
           burstMin s2 = burstMin s1 \<and> burstCount s2 = burstCount s1 - int k \<and>
           numCycle s1 \<le> numCycle s2 \<and> numCycle s2 \<le> N \<and>
           nominalFreq s2 = nominalFreq s1 * freqIncr s1 ^ k \<and> freqIncr s2 = freqIncr s1"
    using s1 Suc.prems(2-8) bj by (intro Suc.IH) simp_all
  then obtain s2 where s2: "iter_next k s1 = Some s2" "sweep s2" "sampleRate s2 = sampleRate s1"
    "burstMin s2 = burstMin s1" "burstCount s2 = burstCount s1 - int k"
    "numCycle s1 \<le> numCycle s2" "numCycle s2 \<le> N"
    "nominalFreq s2 = nominalFreq s1 * freqIncr s1 ^ k" "freqIncr s2 = freqIncr s1"
    by blast
  show ?case
    using s1 s2 by (simp add: mult.assoc)
qed

lemma root_power:
  assumes "0 < (x::real)"
  shows "(x powr (1 / 200)) ^ 200 = x"
proof -
  have "(x powr (1 / 200)) ^ 200 = (x powr (1 / 200)) powr (real 200)"
    by (rule powr_realpow [symmetric]) (use assms in simp)
  also have "\<dots> = x powr ((1 / 200) * real 200)" by (rule powr_powr)
  also have "\<dots> = x" using assms by simp
  finally show ?thesis .
qed


lemma ratio_up: "1 \<le> (100::real) powr (1 / 200)" "(100::real) powr (1 / 200) \<le> 2"
proof -
  show "1 \<le> (100::real) powr (1 / 200)" by (rule ge_one_powr_ge_zero) simp_all
  have "((100::real) powr (1 / 200)) ^ Suc 199 \<le> 2 ^ Suc 199"
    using root_power [of 100] by (simp del: power_Suc)
  then show "(100::real) powr (1 / 200) \<le> 2"
    by (rule power_le_imp_le_base) simp
qed

section \<open>The default frequency sweep\<close>

lemma band_46:
  assumes "100 \<le> (x::real)" "x \<le> 20000"
  shows "0 < x \<and> real_of_int 100 \<le> real_of_int 44100 / x * real_of_int 46 \<and>
         real_of_int 44100 / x * real_of_int 46 < 2 ^ 31"
proof -
  have x: "0 < x" using assms by simp
  have "100 * x \<le> 44100 * 46" using assms by simp
  then have a: "100 \<le> 44100 / x * 46" using x by (simp add: field_simps)
  have "44100 * 46 < 2 ^ 31 * x" using assms by simp
  then have b: "44100 / x * 46 < 2 ^ 31" using x by (simp add: field_simps)
  from x a b show ?thesis by simp
qed

lemma default_freqs:
  assumes "j \<le> 201"
  shows "100 \<le> 100 * ((100::real) powr (1 / 200)) ^ j"
    and "100 * ((100::real) powr (1 / 200)) ^ j \<le> 20000"
proof -
  let ?r = "(100::real) powr (1 / 200)"
  have "1 \<le> ?r ^ j" using ratio_up(1) by (rule one_le_power)
  then show "100 \<le> 100 * ?r ^ j" by simp
  have "?r ^ j \<le> ?r ^ 201" using ratio_up(1) assms by (rule power_increasing [rotated])
  also have "?r ^ 201 = ?r ^ 200 * ?r" using power_add [of ?r 200 1] by simp
  also have "\<dots> = 100 * ?r" using root_power [of 100] by simp
  also have "\<dots> \<le> 200" using ratio_up(2) by simp
  finally show "100 * ?r ^ j \<le> 20000" by simp
qed

lemma default_ladder:
  assumes "k \<le> 201"
  shows "\<exists>s1. iter_next k sweep_burst = Some s1 \<and> sweep s1 \<and>
           burstCount s1 = 201 - int k \<and> 1 \<le> numCycle s1 \<and> numCycle s1 \<le> 46 \<and>
           nominalFreq s1 = 100 * (100 powr (1 / 200)) ^ k"
proof -
  have f: "sweep sweep_burst" "sampleRate sweep_burst = 44100" "burstMin sweep_burst = 100"
    "burstCount sweep_burst = 201" "numCycle sweep_burst = 1" "nominalFreq sweep_burst = 100"
    "freqIncr sweep_burst = 100 powr (1 / 200)"
    by (simp_all add: sweep_burst_def default_burst_def toneBurst_fields_def SAMPLE_RATE_def
        BURST_LENGTH_def)
  have b: "0 < nominalFreq sweep_burst * freqIncr sweep_burst ^ j \<and>
           real_of_int (burstMin sweep_burst) \<le>
             real_of_int (sampleRate sweep_burst) /
               (nominalFreq sweep_burst * freqIncr sweep_burst ^ j) * real_of_int 46 \<and>
           real_of_int (sampleRate sweep_burst) /
               (nominalFreq sweep_burst * freqIncr sweep_burst ^ j) * real_of_int 46 < 2 ^ 31"
    if "1 \<le> j" "j \<le> k" for j
  proof -
    from that assms have "j \<le> 201" by simp
    from default_freqs [OF this] have "100 \<le> 100 * ((100::real) powr (1 / 200)) ^ j"
      "100 * ((100::real) powr (1 / 200)) ^ j \<le> 20000" by simp_all
    from band_46 [OF this] show ?thesis by (simp only: f)
  qed
  have "\<exists>s1. iter_next k sweep_burst = Some s1 \<and> sweep s1 \<and>
           sampleRate s1 = sampleRate sweep_burst \<and>
           burstMin s1 = burstMin sweep_burst \<and> burstCount s1 = burstCount sweep_burst - int k \<and>
           numCycle sweep_burst \<le> numCycle s1 \<and> numCycle s1 \<le> 46 \<and>
           nominalFreq s1 = nominalFreq sweep_burst * freqIncr sweep_burst ^ k \<and>
           freqIncr s1 = freqIncr sweep_burst"
    using assms b by (intro sweep_ladder) (simp_all add: f)
  then show ?thesis by (auto simp: f)
qed



section \<open>A descending frequency sweep\<close>

lemma reset_descending: "reset (default_burst\<lparr>startFreq := 20000\<rparr>) = Some descending_burst"
proof -
  have l: "calc_loop (441 / 200) 100 1 = Some 46"
    by (simp add: calc_loop_step wrap_long_id calc_loop_exit)
  have d: "long_of_double (10143 / 100) = 101"
    by (simp add: long_of_double_floor)
  show ?thesis
    by (simp add: reset_def Let_def calc_def default_burst_def toneBurst_fields_def
        descending_burst_def SAMPLE_RATE_def BURST_LENGTH_def INTERVAL_def wrap_long_id l d)
qed

lemma ratio_down: "1 / 2 \<le> ((1 / 2)::real) powr (1 / 200)" "((1 / 2)::real) powr (1 / 200) \<le> 1"
proof -
  let ?r = "((1 / 2)::real) powr (1 / 200)"
  show le1: "?r \<le> 1" by (rule powr_le1) simp_all
  have "?r ^ 200 \<le> ?r ^ 1" using le1 by (intro power_decreasing) simp_all
  then show "1 / 2 \<le> ?r" using root_power [of "1 / 2"] by simp
qed

lemma descending_freqs:
  assumes "j \<le> 200"
  shows "10000 \<le> 20000 * (((1 / 2)::real) powr (1 / 200)) ^ j"
    and "20000 * (((1 / 2)::real) powr (1 / 200)) ^ j \<le> 20000"
proof -
  let ?r = "((1 / 2)::real) powr (1 / 200)"
  have r0: "0 \<le> ?r" by simp
  have "?r ^ 200 \<le> ?r ^ j" using assms ratio_down(2) r0 by (intro power_decreasing) simp_all
  then show "10000 \<le> 20000 * ?r ^ j" using root_power [of "1 / 2"] by simp
  have "?r ^ j \<le> 1" using r0 ratio_down(2) by (rule power_le_one)
  then show "20000 * ?r ^ j \<le> 20000" by simp
qed

lemma descending_ladder:
  "\<exists>s1. iter_next 200 descending_burst = Some s1 \<and> sampleRate s1 = 44100 \<and> burstMin s1 = 100 \<and>
         numCycle s1 = 46 \<and> nominalFreq s1 = 10000"
proof -
  have f: "sweep descending_burst" "sampleRate descending_burst = 44100"
    "burstMin descending_burst = 100" "burstCount descending_burst = 201"
    "numCycle descending_burst = 46" "nominalFreq descending_burst = 20000"
    "freqIncr descending_burst = (1 / 2) powr (1 / 200)"
    by (simp_all add: descending_burst_def default_burst_def toneBurst_fields_def SAMPLE_RATE_def
        BURST_LENGTH_def)
  have b: "0 < nominalFreq descending_burst * freqIncr descending_burst ^ j \<and>
           real_of_int (burstMin descending_burst) \<le>
             real_of_int (sampleRate descending_burst) /
               (nominalFreq descending_burst * freqIncr descending_burst ^ j) * real_of_int 46 \<and>
           real_of_int (sampleRate descending_burst) /
               (nominalFreq descending_burst * freqIncr descending_burst ^ j) * real_of_int 46 < 2 ^ 31"
    if "1 \<le> j" "j \<le> 200" for j
  proof -
    from descending_freqs [OF that(2)]
    have "100 \<le> 20000 * (((1 / 2)::real) powr (1 / 200)) ^ j"
      "20000 * (((1 / 2)::real) powr (1 / 200)) ^ j \<le> 20000" by simp_all
    from band_46 [OF this] show ?thesis by (simp only: f)
  qed
  have "\<exists>s1. iter_next 200 descending_burst = Some s1 \<and> sweep s1 \<and>
           sampleRate s1 = sampleRate descending_burst \<and>
           burstMin s1 = burstMin descending_burst \<and>
           burstCount s1 = burstCount descending_burst - int 200 \<and>
           numCycle descending_burst \<le> numCycle s1 \<and> numCycle s1 \<le> 46 \<and>
           nominalFreq s1 = nominalFreq descending_burst * freqIncr descending_burst ^ 200 \<and>
           freqIncr s1 = freqIncr descending_burst"
    using b by (intro sweep_ladder) (simp_all add: f)
  then show ?thesis using root_power [of "1 / 2"] by (auto simp: f)
qed

text \<open>
  Claim C3 at a descending sweep. The generator started with the start frequency 20000
  resets to 46 cycles per burst, the least count for 20000 Hz (45 give less than 100
  samples). The ratio is below 1, so the frequencies fall towards 10000; \<open>next\<close> does
  not set \<open>numCycle\<close> back to 1 as \<open>reset\<close> does, and the search of \<open>calc\<close> only counts
  upwards. After 200 calls of \<open>next\<close> the nominal frequency is 10000 and \<open>numCycle\<close> is
  still 46, although 23 cycles already reach the minimum burst length.
\<close>

theorem descending_sweep_not_least:
  "reset (default_burst\<lparr>startFreq := 20000\<rparr>) = Some descending_burst \<and>
   numCycle descending_burst = 46 \<and>
   real_of_int (sampleRate descending_burst) / nominalFreq descending_burst * real_of_int 45 <
     real_of_int (burstMin descending_burst) \<and>
   (\<exists>s1. iter_next 200 descending_burst = Some s1 \<and> nominalFreq s1 = 10000 \<and>
      numCycle s1 = 46 \<and>
      real_of_int (burstMin s1) \<le> real_of_int (sampleRate s1) / nominalFreq s1 * real_of_int 23)"
proof -
  from descending_ladder obtain s1 where
    s1: "iter_next 200 descending_burst = Some s1" "sampleRate s1 = 44100" "burstMin s1 = 100"
      "numCycle s1 = 46" "nominalFreq s1 = 10000"
    by blast
  then have "real_of_int (burstMin s1) \<le>
      real_of_int (sampleRate s1) / nominalFreq s1 * real_of_int 23" by simp
  moreover have "numCycle descending_burst = 46"
    "real_of_int (sampleRate descending_burst) / nominalFreq descending_burst * real_of_int 45 <
       real_of_int (burstMin descending_burst)"
    by (simp_all add: descending_burst_def default_burst_def toneBurst_fields_def SAMPLE_RATE_def
        BURST_LENGTH_def)
  ultimately show ?thesis using s1 reset_descending by blast
qed

section \<open>The loops of read\<close>

lemma read_body_step:
  "\<exists>c1. read_body j (s, c, x1 # x2 # rest) = (s, c1, rest) \<and>
         sum3 c1 = sum3 c + bkg_term s j x1 \<and> sum4 c1 = sum4 c + bkg_term s j x2"
  by (simp add: read_body_def bkg_term_def Let_def)

lemma fold_read_body:
  assumes "2 * length js \<le> length infile"
  shows "\<exists>c1. fold read_body js (s, c, infile) = (s, c1, drop (2 * length js) infile) \<and>
           sum3 c1 = sum3 c + (\<Sum>t<length js. bkg_term s (js ! t) (infile ! (2 * t))) \<and>
           sum4 c1 = sum4 c + (\<Sum>t<length js. bkg_term s (js ! t) (infile ! (2 * t + 1)))"
  using assms
proof (induction js arbitrary: c infile)
  case Nil
  then show ?case by simp
next
  case (Cons j js)
  then obtain x1 x2 rest where infile: "infile = x1 # x2 # rest"
    by (cases infile; cases "tl infile") auto
  from read_body_step [of j s c x1 x2 rest] obtain c1 where
    c1: "read_body j (s, c, x1 # x2 # rest) = (s, c1, rest)"
      "sum3 c1 = sum3 c + bkg_term s j x1" "sum4 c1 = sum4 c + bkg_term s j x2"
    by blast
  have len: "2 * length js \<le> length rest" using Cons.prems infile by simp
  from Cons.IH [OF len, of c1] obtain c2 where
    c2: "fold read_body js (s, c1, rest) = (s, c2, drop (2 * length js) rest)"
      "sum3 c2 = sum3 c1 + (\<Sum>t<length js. bkg_term s (js ! t) (rest ! (2 * t)))"
      "sum4 c2 = sum4 c1 + (\<Sum>t<length js. bkg_term s (js ! t) (rest ! (2 * t + 1)))"
    by blast
  have "fold read_body (j # js) (s, c, infile) = (s, c2, drop (2 * length (j # js)) infile)"
    using c1(1) c2(1) infile by simp
  moreover have "sum3 c2 =
      sum3 c + (\<Sum>t<length (j # js). bkg_term s ((j # js) ! t) (infile ! (2 * t)))"
    using c1(2) c2(2) infile by (simp add: sum.lessThan_Suc_shift add.assoc del: sum.lessThan_Suc)
  moreover have "sum4 c2 =
      sum4 c + (\<Sum>t<length (j # js). bkg_term s ((j # js) ! t) (infile ! (2 * t + 1)))"
    using c1(3) c2(3) infile by (simp add: sum.lessThan_Suc_shift add.assoc del: sum.lessThan_Suc)
  ultimately show ?case by blast
qed

lemma fold_nested:
  "fold (\<lambda>i. fold f xs) is st = fold f (concat (replicate (length is) xs)) st"
  by (induction "is" arbitrary: st) simp_all

lemma nth_concat_replicate:
  "t < n * length xs \<Longrightarrow> concat (replicate n xs) ! t = xs ! (t mod length xs)"
proof (induction n arbitrary: t)
  case 0
  then show ?case by simp
next
  case (Suc n)
  show ?case
  proof (cases "t < length xs")
    case True
    then show ?thesis by (simp add: nth_append)
  next
    case False
    then have "t - length xs < n * length xs" using Suc.prems by simp
    from Suc.IH [OF this] False show ?thesis
      by (simp add: nth_append le_mod_geq)
  qed
qed

lemma sum_rows:
  fixes h :: "nat \<Rightarrow> complex"
  shows "(\<Sum>t<n * k. h t) = (\<Sum>i<n. \<Sum>j<k. h (i * k + j))"
proof -
  have "(\<Sum>t<n * k. h t) = (\<Sum>i<n. sum h {i * k..<i * k + k})"
    by (rule sum.nat_group [symmetric])
  also have "\<dots> = (\<Sum>i<n. \<Sum>j<k. h (i * k + j))"
  proof (rule sum.cong [OF refl])
    fix i
    have "sum h {0 + i * k..<k + i * k} = (\<Sum>j = 0..<k. h (j + i * k))"
      by (rule sum.shift_bounds_nat_ivl)
    then show "sum h {i * k..<i * k + k} = (\<Sum>j<k. h (i * k + j))"
      by (simp add: add.commute lessThan_atLeast0)
  qed
  finally show ?thesis .
qed

lemma read_loops_sums:
  assumes "2 * (nat (numAvg s) * nat (interval s)) \<le> length infile"
  shows "\<exists>c1. read_loops s infile =
             (s, c1, drop (2 * (nat (numAvg s) * nat (interval s))) infile) \<and>
           sum3 c1 = (\<Sum>i<nat (numAvg s). \<Sum>j<nat (interval s).
                        bkg_term s (int j) (infile ! (2 * (i * nat (interval s) + j)))) \<and>
           sum4 c1 = (\<Sum>i<nat (numAvg s). \<Sum>j<nat (interval s).
                        bkg_term s (int j) (infile ! (2 * (i * nat (interval s) + j) + 1)))"
proof -
  define js where "js = concat (replicate (length [0..numAvg s - 1]) [0..interval s - 1])"
  have len: "length js = nat (numAvg s) * nat (interval s)"
    by (simp add: js_def length_concat sum_list_replicate)
  have nth: "js ! t = int (t mod nat (interval s))" if "t < nat (numAvg s) * nat (interval s)" for t
  proof -
    have pos: "0 < nat (interval s)" using that by (cases "nat (interval s)") simp_all
    have "js ! t = [0..interval s - 1] ! (t mod nat (interval s))"
      unfolding js_def using that by (subst nth_concat_replicate) simp_all
    also have "\<dots> = 0 + int (t mod nat (interval s))"
    proof (rule nth_upto)
      have "t mod nat (interval s) < nat (interval s)" using pos by simp
      then show "0 + int (t mod nat (interval s)) \<le> interval s - 1" by linarith
    qed
    finally show ?thesis by simp
  qed
  have loops: "read_loops s infile = fold read_body js (s, read_init, infile)"
    by (simp add: read_loops_def js_def fold_nested)
  from fold_read_body [of js infile s read_init] assms len obtain c1 where
    c1: "fold read_body js (s, read_init, infile) = (s, c1, drop (2 * length js) infile)"
      "sum3 c1 = sum3 read_init + (\<Sum>t<length js. bkg_term s (js ! t) (infile ! (2 * t)))"
      "sum4 c1 = sum4 read_init + (\<Sum>t<length js. bkg_term s (js ! t) (infile ! (2 * t + 1)))"
    by auto
  have "sum3 c1 = (\<Sum>t<nat (numAvg s) * nat (interval s).
                      bkg_term s (int (t mod nat (interval s))) (infile ! (2 * t)))"
    using c1(2) nth by (simp add: len read_init_def)
  also have "\<dots> = (\<Sum>i<nat (numAvg s). \<Sum>j<nat (interval s).
                        bkg_term s (int j) (infile ! (2 * (i * nat (interval s) + j))))"
    by (simp add: sum_rows)
  finally have s3: "sum3 c1 = (\<Sum>i<nat (numAvg s). \<Sum>j<nat (interval s).
                        bkg_term s (int j) (infile ! (2 * (i * nat (interval s) + j))))" .
  have "sum4 c1 = (\<Sum>t<nat (numAvg s) * nat (interval s).
                      bkg_term s (int (t mod nat (interval s))) (infile ! (2 * t + 1)))"
    using c1(3) nth by (simp add: len read_init_def)
  also have "\<dots> = (\<Sum>i<nat (numAvg s). \<Sum>j<nat (interval s).
                        bkg_term s (int j) (infile ! (2 * (i * nat (interval s) + j) + 1)))"
    by (simp add: sum_rows)
  finally have s4: "sum4 c1 = (\<Sum>i<nat (numAvg s). \<Sum>j<nat (interval s).
                        bkg_term s (int j) (infile ! (2 * (i * nat (interval s) + j) + 1)))" .
  from loops c1(1) len s3 s4 show ?thesis by simp
qed

section \<open>The background window of read\<close>

lemma in_background_window:
  assumes "0 \<le> duration s" "2 * duration s \<le> interval s" "interval s < 2 ^ 31"
  shows "in_background s j \<longleftrightarrow>
           interval s - 2 * duration s \<le> j \<and> j < interval s - duration s"
proof -
  have "wrap_long (2 * duration s) = 2 * duration s"
    using assms by (intro wrap_long_id) simp_all
  moreover have "wrap_long (interval s - 2 * duration s) = interval s - 2 * duration s"
    using assms by (intro wrap_long_id) simp_all
  moreover have "wrap_long (interval s - duration s) = interval s - duration s"
    using assms by (intro wrap_long_id) simp_all
  ultimately show ?thesis by (auto simp: in_background_def)
qed

lemma window_sum:
  fixes g :: "nat \<Rightarrow> short"
  assumes "0 \<le> duration s" "2 * duration s \<le> interval s" "interval s < 2 ^ 31"
  shows "(\<Sum>j<nat (interval s). bkg_term s (int j) (g j)) =
         (\<Sum>j = nat (interval s - 2 * duration s)..<nat (interval s - duration s).
            of_int (g j) * exp (Complex 0 (factor s) * of_nat j))"
proof -
  have "(\<Sum>j<nat (interval s). bkg_term s (int j) (g j)) =
        (\<Sum>j<nat (interval s).
           if in_background s (int j)
           then of_int (g j) * exp (Complex 0 (factor s) * of_nat j) else 0)"
    by (simp add: bkg_term_def cong: if_cong)
  also have "\<dots> = (\<Sum>j\<in>{j \<in> {..<nat (interval s)}. in_background s (int j)}.
                      of_int (g j) * exp (Complex 0 (factor s) * of_nat j))"
    by (rule sum.inter_filter [symmetric]) simp
  also have "{j \<in> {..<nat (interval s)}. in_background s (int j)} =
             {nat (interval s - 2 * duration s)..<nat (interval s - duration s)}"
    using assms by (auto simp: in_background_window [OF assms])
  finally show ?thesis .
qed

text \<open>
  Claim C4, as amended. Let \<open>0 \<le> 2 * duration \<le> interval\<close> and let the file hold the
  \<open>numAvg * interval\<close> sample pairs that \<open>read\<close> consumes. Then the loops of \<open>read\<close> leave in
  \<open>sum3\<close> (and in \<open>sum4\<close>, for the second channel) the sum, over the repetitions \<open>i\<close>
  and over exactly the indices \<open>j\<close> with
  \<open>interval - 2 * duration \<le> j < interval - duration\<close>, of the sample read at \<open>(i, j)\<close>
  times \<open>exp (\<i> * factor * j)\<close>. That window has \<open>duration\<close> indices, as many as the signal
  window. If moreover \<open>3 * duration \<le> interval\<close>, no index of it is in the signal window
  \<open>j < duration\<close>.
\<close>

theorem background_window:
  assumes "0 \<le> duration s" and "2 * duration s \<le> interval s" and "interval s < 2 ^ 31"
    and "2 * (nat (numAvg s) * nat (interval s)) \<le> length infile"
  shows "sum3 (fst (snd (read_loops s infile))) =
           (\<Sum>i<nat (numAvg s).
              \<Sum>j = nat (interval s - 2 * duration s)..<nat (interval s - duration s).
                of_int (infile ! (2 * (i * nat (interval s) + j))) *
                exp (Complex 0 (factor s) * of_nat j)) \<and>
         sum4 (fst (snd (read_loops s infile))) =
           (\<Sum>i<nat (numAvg s).
              \<Sum>j = nat (interval s - 2 * duration s)..<nat (interval s - duration s).
                of_int (infile ! (2 * (i * nat (interval s) + j) + 1)) *
                exp (Complex 0 (factor s) * of_nat j)) \<and>
         card {nat (interval s - 2 * duration s)..<nat (interval s - duration s)} =
           nat (duration s) \<and>
         (3 * duration s \<le> interval s \<longrightarrow>
            (\<forall>j \<in> {nat (interval s - 2 * duration s)..<nat (interval s - duration s)}.
               \<not> in_signal s (int j)))"
proof -
  from read_loops_sums [OF assms(4)] obtain c1 where
    c1: "read_loops s infile = (s, c1, drop (2 * (nat (numAvg s) * nat (interval s))) infile)"
      "sum3 c1 = (\<Sum>i<nat (numAvg s). \<Sum>j<nat (interval s).
                    bkg_term s (int j) (infile ! (2 * (i * nat (interval s) + j))))"
      "sum4 c1 = (\<Sum>i<nat (numAvg s). \<Sum>j<nat (interval s).
                    bkg_term s (int j) (infile ! (2 * (i * nat (interval s) + j) + 1)))"
    by blast
  have a: "sum3 (fst (snd (read_loops s infile))) =
           (\<Sum>i<nat (numAvg s).
              \<Sum>j = nat (interval s - 2 * duration s)..<nat (interval s - duration s).
                of_int (infile ! (2 * (i * nat (interval s) + j))) *
                exp (Complex 0 (factor s) * of_nat j))"
    using c1(1,2) by (simp add: window_sum [OF assms(1-3)])
  have b: "sum4 (fst (snd (read_loops s infile))) =
           (\<Sum>i<nat (numAvg s).
              \<Sum>j = nat (interval s - 2 * duration s)..<nat (interval s - duration s).
                of_int (infile ! (2 * (i * nat (interval s) + j) + 1)) *
                exp (Complex 0 (factor s) * of_nat j))"
    using c1(1,3) by (simp add: window_sum [OF assms(1-3)])
  have c: "card {nat (interval s - 2 * duration s)..<nat (interval s - duration s)} =
           nat (duration s)"
    using assms(1,2) by simp
  have d: "\<forall>j \<in> {nat (interval s - 2 * duration s)..<nat (interval s - duration s)}.
             \<not> in_signal s (int j)" if "3 * duration s \<le> interval s"
    using that assms(1) by (auto simp: in_signal_def)
  from a b c d show ?thesis by blast
qed

theorem background_window_witness:
  "0 \<le> duration default_burst \<and> 2 * duration default_burst \<le> interval default_burst \<and>
   3 * duration default_burst \<le> interval default_burst \<and>
   interval default_burst < 2 ^ 31 \<and>
   2 * (nat (numAvg default_burst) * nat (interval default_burst)) \<le> length (replicate 44100 (0::int)) \<and>
   sum3 (fst (snd (read_loops default_burst (replicate 44100 0)))) =
     (\<Sum>i<nat (numAvg default_burst).
        \<Sum>j = nat (interval default_burst - 2 * duration default_burst)..<
                 nat (interval default_burst - duration default_burst).
          of_int (replicate 44100 0 ! (2 * (i * nat (interval default_burst) + j))) *
          exp (Complex 0 (factor default_burst) * of_nat j)) \<and>
   card {nat (interval default_burst - 2 * duration default_burst)..<
         nat (interval default_burst - duration default_burst)} = nat (duration default_burst) \<and>
   \<not> in_signal default_burst (int 21168)"
proof -
  have h: "0 \<le> duration default_burst" "2 * duration default_burst \<le> interval default_burst"
    "interval default_burst < 2 ^ 31"
    "2 * (nat (numAvg default_burst) * nat (interval default_burst)) \<le>
       length (replicate 44100 (0::int))"
    and h3: "3 * duration default_burst \<le> interval default_burst"
    by (simp_all add: default_burst_def toneBurst_fields_def INTERVAL_def)
  have w: "21168 \<in> {nat (interval default_burst - 2 * duration default_burst)..<
                     nat (interval default_burst - duration default_burst)}"
    by (simp add: default_burst_def toneBurst_fields_def INTERVAL_def)
  from background_window [OF h] h h3 w show ?thesis by blast
qed

lemma reset_5Hz: "reset (default_burst\<lparr>startFreq := 5\<rparr>) = Some burst_5Hz"
proof -
  have l: "calc_loop 8820 100 1 = Some 1"
    by (simp add: calc_loop_exit)
  have d: "long_of_double 8820 = 8820"
    by (simp add: long_of_double_floor)
  show ?thesis
    by (simp add: reset_def Let_def calc_def default_burst_def toneBurst_fields_def
        burst_5Hz_def SAMPLE_RATE_def BURST_LENGTH_def INTERVAL_def wrap_long_id l d)
qed

lemma reset_3Hz: "reset (default_burst\<lparr>startFreq := 3\<rparr>) = Some burst_3Hz"
proof -
  have l: "calc_loop 14700 100 1 = Some 1"
    by (simp add: calc_loop_exit)
  have d: "long_of_double 14700 = 14700"
    by (simp add: long_of_double_floor)
  show ?thesis
    by (simp add: reset_def Let_def calc_def default_burst_def toneBurst_fields_def
        burst_3Hz_def SAMPLE_RATE_def BURST_LENGTH_def INTERVAL_def wrap_long_id l d)
qed

text \<open>
  Claim C4, as the specification words it, fails for bursts the programs compute from
  a low start frequency. At 5 Hz the burst lasts 8820 of the 22050 samples of the
  interval: the index 4410 passes the test of the signal window and the test of the
  background window, so the two windows overlap. At 3 Hz the burst lasts 14700 samples:
  the window of the claim would start at the index -7350, and the loop, which starts at
  0, adds the sample at the index 0 to the background sums.
\<close>

theorem background_window_counterexample:
  "reset (default_burst\<lparr>startFreq := 5\<rparr>) = Some burst_5Hz \<and>
   in_signal burst_5Hz 4410 \<and> in_background burst_5Hz 4410 \<and>
   reset (default_burst\<lparr>startFreq := 3\<rparr>) = Some burst_3Hz \<and>
   interval burst_3Hz - 2 * duration burst_3Hz = - 7350 \<and>
   in_signal burst_3Hz 0 \<and> in_background burst_3Hz 0 \<and> \<not> in_background burst_3Hz 7350"
  by (simp add: reset_5Hz reset_3Hz)
     (simp add: in_signal_def in_background_def burst_5Hz_def burst_3Hz_def default_burst_def
       toneBurst_fields_def INTERVAL_def wrap_long_id)

section \<open>The object and the streams in write and read\<close>

text \<open>
  Claim C9. \<open>write\<close> and \<open>read\<close> return the object they were given: every data member,
  from \<open>sampleRate\<close> to \<open>numAvg\<close>, has its prior value.
\<close>

theorem read_write_frame:
  "fst (writeBurst s outfile) = s \<and> fst (read s infile) = s"
proof
  have inner: "\<And>js st. fst (fold write_body js st) = fst st"
    by (rule fold_fst_inv) (simp add: write_body_def Let_def split: prod.splits)
  have "fst (fold (\<lambda>i. fold write_body [0..interval s - 1]) [0..numAvg s - 1] (s, outfile)) =
        fst (s, outfile)"
    by (rule fold_fst_inv) (rule inner)
  then show "fst (writeBurst s outfile) = s" by (simp add: writeBurst_def)
next
  have "fst (read_loops s infile) = s" by (rule read_loops_fst)
  then show "fst (read s infile) = s"
    by (cases "read_loops s infile") (simp add: read_def Let_def)
qed

lemma length_delay_loop:
  "length (delay_loop s outfile) = length outfile + 2 * nat (delay s)"
proof -
  have "length (fold (\<lambda>i out. out @ [0, 0]) is (outfile :: short list)) =
        length outfile + 2 * length is" for "is" :: "int list"
    by (induction "is" arbitrary: outfile) simp_all
  then show ?thesis by (simp add: delay_loop_def)
qed

lemma length_fold_write_body:
  "length (snd (fold write_body js (s, outfile))) = length outfile + 2 * length js"
proof (induction js arbitrary: outfile)
  case Nil
  then show ?case by simp
next
  case (Cons j js)
  obtain a where "write_body j (s, outfile) = (s, outfile @ [a, a])"
    by (simp add: write_body_def Let_def)
  with Cons.IH [of "outfile @ [a, a]"] show ?case by simp
qed

lemma length_writeBurst:
  "length (snd (writeBurst s outfile)) =
     length outfile + 2 * (nat (numAvg s) * nat (interval s))"
  by (simp add: writeBurst_def fold_nested length_fold_write_body length_concat
      sum_list_replicate)

lemma calc_io_frame:
  "calc s = Some s1 \<Longrightarrow>
   burstCount s1 = burstCount s \<and> numAvg s1 = numAvg s \<and> interval s1 = interval s \<and>
   delay s1 = delay s"
  by (auto simp: calc_def Let_def split: if_splits option.splits)

lemma nextBurst_frame:
  assumes "nextBurst s = Some (b, s1)" "0 < burstCount s" "burstCount s \<le> 2 ^ 31"
  shows "burstCount s1 = burstCount s - 1 \<and> numAvg s1 = numAvg s \<and> interval s1 = interval s"
proof -
  have w: "wrap_long (burstCount s - 1) = burstCount s - 1"
    using assms(2,3) by (intro wrap_long_id) simp_all
  show ?thesis
  proof (cases "sweep s")
    case True
    with assms obtain t where t: "calc (s\<lparr>nominalFreq := nominalFreq s * freqIncr s\<rparr>) = Some t"
      "s1 = t\<lparr>burstCount := wrap_long (burstCount t - 1)\<rparr>"
      by (auto simp: nextBurst_def split: option.splits)
    from calc_io_frame [OF t(1)] t(2) w show ?thesis by simp
  next
    case False
    with assms w show ?thesis by (auto simp: nextBurst_def)
  qed
qed

lemma reset_frame:
  "reset s = Some s1 \<Longrightarrow>
   burstCount s1 = numBurst s \<and> numAvg s1 = numAvg s \<and> interval s1 = interval s"
  by (auto simp: reset_def Let_def split: if_splits dest!: calc_io_frame)

section \<open>Length of the sample stream of the generator\<close>

lemma burst_loop_length:
  assumes "burst_loop s outfile = Some (s1, out1)" "0 \<le> burstCount s" "burstCount s \<le> 2 ^ 31"
  shows "length out1 =
           length outfile + nat (burstCount s) * (2 * (nat (numAvg s) * nat (interval s)))"
  using assms
proof (induction s outfile rule: burst_loop.induct)
  case (1 s outfile)
  show ?case
  proof (cases "good s")
    case False
    with "1.prems" show ?thesis
      by (simp add: burst_loop.simps [of s outfile] good_def)
  next
    case True
    then have pos: "0 < burstCount s" by (simp add: good_def)
    obtain w where w: "writeBurst s outfile = (s, w)"
      using writeBurst_fst [of s outfile] by (cases "writeBurst s outfile") simp
    have lw: "length w = length outfile + 2 * (nat (numAvg s) * nat (interval s))"
      using length_writeBurst [of s outfile] w by simp
    from "1.prems"(1) True w obtain b s2 where
      n: "nextBurst s = Some (b, s2)" and rest: "burst_loop s2 w = Some (s1, out1)"
      by (auto simp: burst_loop.simps [of s outfile] split: option.splits)
    from nextBurst_frame [OF n pos "1.prems"(3)]
    have fr: "burstCount s2 = burstCount s - 1" "numAvg s2 = numAvg s" "interval s2 = interval s"
      by simp_all
    have "length out1 =
        length w + nat (burstCount s2) * (2 * (nat (numAvg s2) * nat (interval s2)))"
      using "1.IH" [OF True w [symmetric] refl n refl rest] fr pos "1.prems"(3) by simp
    moreover have "nat (burstCount s) = Suc (nat (burstCount s2))" using fr pos by simp
    ultimately show ?thesis using lw fr by simp
  qed
qed

lemma burst_loop_iter:
  assumes "burstCount s = int n" "burstCount s \<le> 2 ^ 31" "iter_next n s = Some s1"
  shows "\<exists>out1. burst_loop s outfile = Some (s1, out1)"
  using assms
proof (induction n arbitrary: s outfile)
  case 0
  have "burst_loop s outfile = Some (s, outfile)"
    using "0.prems"(1) by (subst burst_loop.simps) (simp add: good_def)
  with "0.prems"(3) show ?case by simp
next
  case (Suc n)
  have pos: "0 < burstCount s" using Suc.prems(1) by simp
  obtain w where w: "writeBurst s outfile = (s, w)"
    using writeBurst_fst [of s outfile] by (cases "writeBurst s outfile") simp
  from Suc.prems(3) obtain b s2 where
    n: "nextBurst s = Some (b, s2)" and it: "iter_next n s2 = Some s1"
    by (auto split: option.splits)
  from nextBurst_frame [OF n pos Suc.prems(2)] Suc.prems(1)
  have bc: "burstCount s2 = int n" by simp
  then have "burstCount s2 \<le> 2 ^ 31" using Suc.prems(1,2) by simp
  from Suc.IH [OF bc this it, of w] obtain out1 where "burst_loop s2 w = Some (s1, out1)"
    by blast
  then show ?case
    using pos w n by (simp add: burst_loop.simps [of s outfile] good_def)
qed

lemma configure_consts:
  "(numBurst (configure args default_burst) = 201 \<and> interval (configure args default_burst) = 22050) \<or>
   (numBurst (configure args default_burst) = 72 \<and> interval (configure args default_burst) = 44100)"
  by (cases args)
     (simp_all add: default_burst_def toneBurst_fields_def INTERVAL_def init_def Let_def
       wrap_long_id)

lemma tbg_run:
  assumes "tbg args = Some (myRiff, myData, out)"
  shows "chunkSize myData = getSize (configure args default_burst) \<and>
         chunkSize myRiff = wrap_long (getSize (configure args default_burst) + 36) \<and>
         length out =
           2 * nat (delay (configure args default_burst)) +
           nat (numBurst (configure args default_burst)) *
             (2 * (nat (numAvg (configure args default_burst)) *
                   nat (interval (configure args default_burst))))"
proof -
  let ?b = "configure args default_burst"
  from assms obtain s1 s2 where
    r: "reset ?b = Some s1" and l: "burst_loop s1 (delay_loop ?b []) = Some (s2, out)"
    and h: "myRiff = riff_setSize (getSize ?b)" "myData = data_setSize (getSize ?b)"
    by (auto simp: tbg_def ctor_value Let_def split: option.splits)
  from reset_frame [OF r]
  have fr: "burstCount s1 = numBurst ?b" "numAvg s1 = numAvg ?b" "interval s1 = interval ?b"
    by simp_all
  have rng: "0 \<le> burstCount s1" "burstCount s1 \<le> 2 ^ 31"
    using configure_consts [of args] fr(1) by auto
  from burst_loop_length [OF l rng] fr
  have "length out = length (delay_loop ?b []) +
      nat (numBurst ?b) * (2 * (nat (numAvg ?b) * nat (interval ?b)))" by simp
  then show ?thesis using h by (simp add: length_delay_loop riff_setSize_def data_setSize_def)
qed

lemma getSize_exact:
  assumes "0 \<le> delay s" "0 \<le> numAvg s"
    and "(numBurst s = 201 \<and> interval s = 22050) \<or> (numBurst s = 72 \<and> interval s = 44100)"
    and "2 * 2 * (interval s * numAvg s * numBurst s + delay s) < 2 ^ 31"
  shows "getSize s = 2 * 2 * (interval s * numAvg s * numBurst s + delay s)"
proof -
  have a: "wrap_long (2 * 2) = 2 * 2" by (simp add: wrap_long_id)
  have b: "wrap_long (interval s * numAvg s) = interval s * numAvg s"
    using assms by (intro wrap_long_id) auto
  have c: "wrap_long (interval s * numAvg s * numBurst s) = interval s * numAvg s * numBurst s"
    using assms by (intro wrap_long_id) auto
  have d: "wrap_long (interval s * numAvg s * numBurst s + delay s) =
           interval s * numAvg s * numBurst s + delay s"
    using assms by (intro wrap_long_id) auto
  have e: "wrap_long (2 * 2 * (interval s * numAvg s * numBurst s + delay s)) =
           2 * 2 * (interval s * numAvg s * numBurst s + delay s)"
    using assms by (intro wrap_long_id) auto
  show ?thesis by (simp only: getSize_def a b c d e)
qed

text \<open>
  Claim C10, as amended. For every run of the generator that completes, with a delay and
  an averaging count that are not negative and a byte count
  \<open>2 * 2 * (interval * numAvg * numBurst + delay)\<close> that a 32-bit \<open>long\<close> holds: the samples
  written after the header take \<open>getSize\<close> bytes, two for each sample, and that is the value
  in the size field of the data chunk.
\<close>

theorem tbg_stream_size:
  assumes "tbg args = Some (myRiff, myData, out)"
    and "0 \<le> delay (configure args default_burst)"
    and "0 \<le> numAvg (configure args default_burst)"
    and "2 * 2 * (interval (configure args default_burst) * numAvg (configure args default_burst) *
                    numBurst (configure args default_burst) +
                  delay (configure args default_burst)) < 2 ^ 31"
  shows "2 * int (length out) = getSize (configure args default_burst) \<and>
         chunkSize myData = getSize (configure args default_burst)"
proof -
  let ?b = "configure args default_burst"
  from tbg_run [OF assms(1)]
  have d: "chunkSize myData = getSize ?b"
    and len: "length out =
      2 * nat (delay ?b) + nat (numBurst ?b) * (2 * (nat (numAvg ?b) * nat (interval ?b)))"
    by simp_all
  have g: "getSize ?b = 2 * 2 * (interval ?b * numAvg ?b * numBurst ?b + delay ?b)"
    using assms(2-4) configure_consts [of args] by (intro getSize_exact) simp_all
  have "2 * int (length out) = 2 * 2 * (interval ?b * numAvg ?b * numBurst ?b + delay ?b)"
    using len assms(2,3) configure_consts [of args] by (auto simp: nat_mult_distrib)
  with g d show ?thesis by simp
qed

lemma sweep100_ladder:
  assumes f: "sweep s" "sampleRate s = 44100" "burstMin s = 100" "burstCount s = 201"
    "numCycle s = 1" "nominalFreq s = 100" "freqIncr s = 100 powr (1 / 200)"
    and k: "k \<le> 201"
  shows "\<exists>s1. iter_next k s = Some s1"
proof -
  have b: "0 < nominalFreq s * freqIncr s ^ j \<and>
           real_of_int (burstMin s) \<le>
             real_of_int (sampleRate s) / (nominalFreq s * freqIncr s ^ j) * real_of_int 46 \<and>
           real_of_int (sampleRate s) / (nominalFreq s * freqIncr s ^ j) * real_of_int 46 < 2 ^ 31"
    if "1 \<le> j" "j \<le> k" for j
  proof -
    from that k have "j \<le> 201" by simp
    from default_freqs [OF this] have "100 \<le> 100 * ((100::real) powr (1 / 200)) ^ j"
      "100 * ((100::real) powr (1 / 200)) ^ j \<le> 20000" by simp_all
    from band_46 [OF this] show ?thesis by (simp only: f)
  qed
  have "\<exists>s1. iter_next k s = Some s1 \<and> sweep s1 \<and> sampleRate s1 = sampleRate s \<and>
           burstMin s1 = burstMin s \<and> burstCount s1 = burstCount s - int k \<and>
           numCycle s \<le> numCycle s1 \<and> numCycle s1 \<le> 46 \<and>
           nominalFreq s1 = nominalFreq s * freqIncr s ^ k \<and> freqIncr s1 = freqIncr s"
    using k b by (intro sweep_ladder) (simp_all add: f)
  then show ?thesis by blast
qed

lemma reset_default_io:
  "reset (default_burst\<lparr>numAvg := n, delay := d\<rparr>) = Some (sweep_burst\<lparr>numAvg := n, delay := d\<rparr>)"
proof -
  have l: "calc_loop 441 100 1 = Some 1"
    by (simp add: calc_loop_exit)
  have d: "long_of_double 441 = 441"
    by (simp add: long_of_double_floor)
  show ?thesis
    by (simp add: reset_def Let_def calc_def default_burst_def toneBurst_fields_def
        sweep_burst_def SAMPLE_RATE_def BURST_LENGTH_def INTERVAL_def wrap_long_id l d)
qed

lemma tbg_default_sweep:
  assumes "configure args default_burst = default_burst\<lparr>numAvg := n, delay := d\<rparr>"
  shows "\<exists>myRiff myData out. tbg args = Some (myRiff, myData, out)"
proof -
  let ?p = "sweep_burst\<lparr>numAvg := n, delay := d\<rparr>"
  have f: "sweep ?p" "sampleRate ?p = 44100" "burstMin ?p = 100" "burstCount ?p = 201"
    "numCycle ?p = 1" "nominalFreq ?p = 100" "freqIncr ?p = 100 powr (1 / 200)"
    by (simp_all add: sweep_burst_def default_burst_def toneBurst_fields_def SAMPLE_RATE_def
        BURST_LENGTH_def)
  from sweep100_ladder [OF f, of 201] obtain s1 where it: "iter_next 201 ?p = Some s1" by auto
  have bc: "burstCount ?p = int 201" "burstCount ?p \<le> 2 ^ 31" using f(4) by simp_all
  from burst_loop_iter [OF bc it] obtain out where
    "burst_loop ?p (delay_loop (default_burst\<lparr>numAvg := n, delay := d\<rparr>) []) = Some (s1, out)"
    by blast
  then show ?thesis
    by (simp add: tbg_def ctor_value Let_def assms reset_default_io)
qed

theorem tbg_stream_size_witness:
  "tbg Argc2 \<noteq> None \<and>
   0 \<le> delay (configure Argc2 default_burst) \<and> 0 \<le> numAvg (configure Argc2 default_burst) \<and>
   2 * int (length (snd (snd (the (tbg Argc2))))) = 17816400 \<and>
   chunkSize (fst (snd (the (tbg Argc2)))) = 17816400"
proof -
  have c: "configure Argc2 default_burst = default_burst\<lparr>numAvg := 1, delay := 22050\<rparr>"
    by (simp add: default_burst_def toneBurst_fields_def INTERVAL_def)
  from tbg_default_sweep [OF c] obtain myRiff myData out where
    t: "tbg Argc2 = Some (myRiff, myData, out)" by blast
  have h: "0 \<le> delay (configure Argc2 default_burst)" "0 \<le> numAvg (configure Argc2 default_burst)"
    "2 * 2 * (interval (configure Argc2 default_burst) * numAvg (configure Argc2 default_burst) *
                numBurst (configure Argc2 default_burst) +
              delay (configure Argc2 default_burst)) < 2 ^ 31"
    by (simp_all add: default_burst_def toneBurst_fields_def INTERVAL_def)
  have g: "getSize (configure Argc2 default_burst) = 17816400"
    by (simp add: default_burst_def toneBurst_fields_def INTERVAL_def getSize_def wrap_long_id)
  from tbg_stream_size [OF t h] t h g show ?thesis by simp
qed

text \<open>
  Claim C10, as the specification words it, fails for the run \<^verbatim>\<open>tbg out.wav -1\<close>. The
  delay loop writes nothing for a negative delay, the 201 bursts take
  \<open>2 * 2 * 22050 * 201 = 17728200\<close> bytes, and \<open>getSize\<close>, which adds the delay as it is,
  has put \<open>17728196\<close> in the data chunk.
\<close>

theorem tbg_stream_size_counterexample:
  "tbg (Argc3 (- 1)) \<noteq> None \<and>
   2 * int (length (snd (snd (the (tbg (Argc3 (- 1))))))) = 17728200 \<and>
   chunkSize (fst (snd (the (tbg (Argc3 (- 1)))))) = 17728196 \<and>
   getSize (configure (Argc3 (- 1)) default_burst) = 17728196"
proof -
  have c: "configure (Argc3 (- 1)) default_burst = default_burst\<lparr>numAvg := 1, delay := - 1\<rparr>"
    by (simp add: default_burst_def toneBurst_fields_def)
  from tbg_default_sweep [OF c] obtain myRiff myData out where
    t: "tbg (Argc3 (- 1)) = Some (myRiff, myData, out)" by blast
  have g: "getSize (configure (Argc3 (- 1)) default_burst) = 17728196"
    by (simp add: default_burst_def toneBurst_fields_def INTERVAL_def getSize_def wrap_long_id)
  have "length out = 8864100"
    using tbg_run [OF t]
    by (simp add: default_burst_def toneBurst_fields_def INTERVAL_def)
  with tbg_run [OF t] t g show ?thesis by simp
qed

section \<open>The stream of one burst, written and read back\<close>

lemma write_body_sample:
  "write_body j (s, outfile) = (s, outfile @ [burst_sample s j, burst_sample s j])"
  by (simp add: write_body_def burst_sample_def Let_def)

lemma fold_write_body: "fold write_body js (s, outfile) = (s, outfile @ stereo s js)"
  by (induction js arbitrary: outfile) (simp_all add: stereo_def write_body_sample)

lemma writeBurst_stream:
  "writeBurst s outfile =
     (s, outfile @ stereo s (concat (replicate (nat (numAvg s)) [0..interval s - 1])))"
  by (simp add: writeBurst_def fold_nested fold_write_body)

lemma read_body_stereo:
  "\<exists>c1. read_body j (s, c, x # x # rest) = (s, c1, rest) \<and>
         sum1 c1 = sum1 c + sig_term s j x \<and> sum2 c1 = sum2 c + sig_term s j x"
  by (simp add: read_body_def sig_term_def Let_def)

lemma fold_read_stereo:
  "\<exists>c1. fold read_body js (s, c, stereo s js @ rest) = (s, c1, rest) \<and>
         sum1 c1 = sum1 c + (\<Sum>j\<leftarrow>js. sig_term s j (burst_sample s j)) \<and>
         sum2 c1 = sum2 c + (\<Sum>j\<leftarrow>js. sig_term s j (burst_sample s j))"
proof (induction js arbitrary: c)
  case Nil
  then show ?case by (simp add: stereo_def)
next
  case (Cons j js)
  from read_body_stereo [of j s c "burst_sample s j" "stereo s js @ rest"] obtain c1 where
    c1: "read_body j (s, c, burst_sample s j # burst_sample s j # stereo s js @ rest) =
           (s, c1, stereo s js @ rest)"
      "sum1 c1 = sum1 c + sig_term s j (burst_sample s j)"
      "sum2 c1 = sum2 c + sig_term s j (burst_sample s j)"
    by blast
  from Cons.IH [of c1] obtain c2 where
    c2: "fold read_body js (s, c1, stereo s js @ rest) = (s, c2, rest)"
      "sum1 c2 = sum1 c1 + (\<Sum>j\<leftarrow>js. sig_term s j (burst_sample s j))"
      "sum2 c2 = sum2 c1 + (\<Sum>j\<leftarrow>js. sig_term s j (burst_sample s j))"
    by blast
  have "fold read_body (j # js) (s, c, stereo s (j # js) @ rest) = (s, c2, rest)"
    using c1(1) c2(1) by (simp add: stereo_def)
  with c1 c2 show ?case by (auto simp: add.assoc)
qed

lemma sum_list_repeated:
  fixes g :: "'a \<Rightarrow> complex"
  shows "(\<Sum>x\<leftarrow>concat (replicate n xs). g x) = of_nat n * (\<Sum>x\<leftarrow>xs. g x)"
  by (induction n) (simp_all add: algebra_simps)

lemma round_trip_sums:
  assumes "0 \<le> duration s" "duration s \<le> interval s"
  shows "\<exists>c1. read_loops s (snd (writeBurst s [])) = (s, c1, []) \<and>
           sum1 c1 = of_nat (nat (numAvg s)) *
             (\<Sum>j = 0..<nat (duration s).
                of_int (burst_sample s (int j)) * exp (Complex 0 (factor s) * of_nat j)) \<and>
           sum2 c1 = sum1 c1"
proof -
  define js where "js = concat (replicate (nat (numAvg s)) [0..interval s - 1])"
  have w: "snd (writeBurst s []) = stereo s js @ []"
    by (simp add: writeBurst_stream js_def)
  have r: "read_loops s (stereo s js @ []) = fold read_body js (s, read_init, stereo s js @ [])"
    by (simp add: read_loops_def js_def fold_nested)
  from fold_read_stereo [of js s read_init "[]"] obtain c1 where
    c1: "fold read_body js (s, read_init, stereo s js @ []) = (s, c1, [])"
      "sum1 c1 = sum1 read_init + (\<Sum>j\<leftarrow>js. sig_term s j (burst_sample s j))"
      "sum2 c1 = sum2 read_init + (\<Sum>j\<leftarrow>js. sig_term s j (burst_sample s j))"
    by blast
  have row: "(\<Sum>j\<leftarrow>[0..interval s - 1]. sig_term s j (burst_sample s j)) =
        (\<Sum>j = 0..<nat (duration s).
           of_int (burst_sample s (int j)) * exp (Complex 0 (factor s) * of_nat j))"
  proof -
    have "(\<Sum>j\<leftarrow>[0..interval s - 1]. sig_term s j (burst_sample s j)) =
          (\<Sum>j\<in>{0..interval s - 1}. sig_term s j (burst_sample s j))"
      by (subst sum_list_distinct_conv_sum_set) simp_all
    also have "\<dots> = (\<Sum>j\<in>{j \<in> {0..interval s - 1}. in_signal s j}.
                        of_int (burst_sample s j) * exp (Complex 0 (factor s) * of_int j))"
      unfolding sig_term_def by (rule sum.inter_filter [symmetric]) simp
    also have "{j \<in> {0..interval s - 1}. in_signal s j} = int ` {0..<nat (duration s)}"
    proof (intro set_eqI iffI)
      fix j assume "j \<in> {j \<in> {0..interval s - 1}. in_signal s j}"
      then have "nat j \<in> {0..<nat (duration s)}" "j = int (nat j)"
        by (simp_all add: in_signal_def)
      then show "j \<in> int ` {0..<nat (duration s)}" by (rule rev_image_eqI)
    next
      fix j assume "j \<in> int ` {0..<nat (duration s)}"
      then show "j \<in> {j \<in> {0..interval s - 1}. in_signal s j}"
        using assms by (auto simp: in_signal_def)
    qed
    also have "(\<Sum>j\<in>int ` {0..<nat (duration s)}.
                  of_int (burst_sample s j) * exp (Complex 0 (factor s) * of_int j)) =
               (\<Sum>j = 0..<nat (duration s).
                  of_int (burst_sample s (int j)) * exp (Complex 0 (factor s) * of_nat j))"
      by (subst sum.reindex) (simp_all add: inj_on_def)
    finally show ?thesis .
  qed
  have "(\<Sum>j\<leftarrow>js. sig_term s j (burst_sample s j)) =
        of_nat (nat (numAvg s)) * (\<Sum>j\<leftarrow>[0..interval s - 1]. sig_term s j (burst_sample s j))"
    unfolding js_def by (rule sum_list_repeated)
  with c1 row have "sum1 c1 = of_nat (nat (numAvg s)) *
             (\<Sum>j = 0..<nat (duration s).
                of_int (burst_sample s (int j)) * exp (Complex 0 (factor s) * of_nat j))"
    "sum2 c1 = sum1 c1"
    by (simp_all add: read_init_def)
  with w r c1(1) show ?thesis by simp
qed

section \<open>Sums over a whole number of cycles\<close>

lemma cis_neq_one:
  assumes "0 < D" "\<not> int D dvd m"
  shows "cis (2 * pi * real_of_int m / real D) \<noteq> 1"
proof
  assume "cis (2 * pi * real_of_int m / real D) = 1"
  then have "cos (2 * pi * real_of_int m / real D) = 1"
    by (simp add: complex_eq_iff)
  then obtain k :: int where k: "2 * pi * real_of_int m / real D = real_of_int k * 2 * pi"
    using cos_one_2pi_int by blast
  have "(2 * pi) * (real_of_int m / real D) = (2 * pi) * real_of_int k"
    using k by (simp add: mult_ac)
  then have "real_of_int m / real D = real_of_int k"
    by (subst (asm) mult_left_cancel) simp_all
  then have "real_of_int m = real_of_int (k * int D)" using assms(1) by (simp add: field_simps)
  then have "m = k * int D" by (simp only: of_int_eq_iff)
  with assms(2) show False by simp
qed

lemma roots_sum:
  assumes "0 < D" "\<not> int D dvd m"
  shows "(\<Sum>j<D. cis (2 * pi * real_of_int m / real D * real j)) = 0"
proof -
  let ?w = "cis (2 * pi * real_of_int m / real D)"
  have w1: "?w \<noteq> 1" using assms by (rule cis_neq_one)
  have "?w ^ D = cis (real D * (2 * pi * real_of_int m / real D))" by (rule DeMoivre)
  also have "real D * (2 * pi * real_of_int m / real D) = 2 * pi * real_of_int m"
    using assms(1) by simp
  also have "cis (2 * pi * real_of_int m) = 1" by (simp add: complex_eq_iff)
  finally have wD: "?w ^ D = 1" .
  have "(\<Sum>j<D. cis (2 * pi * real_of_int m / real D * real j)) = (\<Sum>j<D. ?w ^ j)"
    by (simp add: DeMoivre mult.commute)
  also have "\<dots> = (?w ^ D - 1) / (?w - 1)" using w1 by (rule geometric_sum)
  also have "\<dots> = 0" using wD by simp
  finally show ?thesis .
qed

lemma cos_cis: "complex_of_real (cos x) = (cis x + cis (- x)) / 2"
  by (simp add: complex_eq_iff)

lemma burst_shape:
  "complex_of_real (cos x - cos (2 * x)) * cis x =
     (cis (2 * x) + 1) / 2 - (cis (3 * x) + cis (- x)) / 2"
proof -
  have a: "cis x * cis x = cis (2 * x)" "cis (- x) * cis x = 1"
    "cis (2 * x) * cis x = cis (3 * x)" "cis (- (2 * x)) * cis x = cis (- x)"
    by (simp_all add: cis_mult)
  have "complex_of_real (cos x - cos (2 * x)) * cis x =
        ((cis x + cis (- x)) / 2 - (cis (2 * x) + cis (- (2 * x))) / 2) * cis x"
    by (simp only: of_real_diff cos_cis)
  also have "\<dots> = (cis x * cis x + cis (- x) * cis x) / 2 -
                    (cis (2 * x) * cis x + cis (- (2 * x)) * cis x) / 2"
    by (simp add: algebra_simps diff_divide_distrib add_divide_distrib)
  finally show ?thesis by (simp only: a)
qed

lemma sum_shape:
  fixes f g h :: "nat \<Rightarrow> complex"
  shows "(\<Sum>j<D. (f j + 1) / 2 - (g j + h j) / 2) =
         ((\<Sum>j<D. f j) + of_nat D) / 2 - ((\<Sum>j<D. g j) + (\<Sum>j<D. h j)) / 2"
  by (simp add: sum_subtractf sum.distrib flip: sum_divide_distrib)

lemma ideal_sum:
  assumes D: "0 < D" and c2: "\<not> int D dvd 2 * c" and c3: "\<not> int D dvd 3 * c"
  shows "(\<Sum>j<D. complex_of_real
             (cos (2 * pi * real_of_int c / real D * real j) -
              cos (2 * (2 * pi * real_of_int c / real D * real j))) *
           cis (2 * pi * real_of_int c / real D * real j)) = of_nat D / 2"
proof -
  have c1: "\<not> int D dvd - c" using c2 by auto
  have r2: "(\<Sum>j<D. cis (2 * (2 * pi * real_of_int c / real D * real j))) = 0"
    using roots_sum [OF D c2] by (simp add: mult_ac)
  have r3: "(\<Sum>j<D. cis (3 * (2 * pi * real_of_int c / real D * real j))) = 0"
    using roots_sum [OF D c3] by (simp add: mult_ac)
  have r1: "(\<Sum>j<D. cis (- (2 * pi * real_of_int c / real D * real j))) = 0"
    using roots_sum [OF D c1] by (simp add: mult_ac)
  have "(\<Sum>j<D. complex_of_real
             (cos (2 * pi * real_of_int c / real D * real j) -
              cos (2 * (2 * pi * real_of_int c / real D * real j))) *
           cis (2 * pi * real_of_int c / real D * real j)) =
        (\<Sum>j<D. (cis (2 * (2 * pi * real_of_int c / real D * real j)) + 1) / 2 -
                 (cis (3 * (2 * pi * real_of_int c / real D * real j)) +
                  cis (- (2 * pi * real_of_int c / real D * real j))) / 2)"
    by (simp only: burst_shape)
  also have "\<dots> = ((\<Sum>j<D. cis (2 * (2 * pi * real_of_int c / real D * real j))) + of_nat D) / 2 -
                   ((\<Sum>j<D. cis (3 * (2 * pi * real_of_int c / real D * real j))) +
                    (\<Sum>j<D. cis (- (2 * pi * real_of_int c / real D * real j)))) / 2"
    by (rule sum_shape)
  finally show ?thesis by (simp only: r1 r2 r3) simp
qed

lemma wrap_short_id: "- (2 ^ 15) \<le> k \<Longrightarrow> k < 2 ^ 15 \<Longrightarrow> wrap_short k = k"
  unfolding wrap_short_def by (rule signed_take_bit_int_eq_self) simp_all

lemma short_of_double_near:
  assumes "\<bar>x\<bar> \<le> 24000"
  shows "\<bar>real_of_int (short_of_double x) - x\<bar> \<le> 1"
proof -
  have b: "- 24000 \<le> x" "x \<le> 24000" using assms by linarith+
  then have r: "- (2 ^ 31) - 1 < x \<and> x < 2 ^ 31" by simp
  show ?thesis
  proof (cases "0 \<le> x")
    case True
    then have l: "long_of_double x = \<lfloor>x\<rfloor>" using r by (simp add: long_of_double_def)
    have "0 \<le> \<lfloor>x\<rfloor>" "\<lfloor>x\<rfloor> \<le> 24000" using True assms by (simp_all add: floor_le_iff)
    then have "wrap_short \<lfloor>x\<rfloor> = \<lfloor>x\<rfloor>" by (intro wrap_short_id) simp_all
    then show ?thesis unfolding short_of_double_def l by simp linarith
  next
    case False
    then have l: "long_of_double x = \<lceil>x\<rceil>" using r by (simp add: long_of_double_def)
    have "\<lceil>x\<rceil> \<le> 0" "- 24000 \<le> \<lceil>x\<rceil>" using False assms by (simp_all add: ceiling_le_iff le_ceiling_iff)
    then have "wrap_short \<lceil>x\<rceil> = \<lceil>x\<rceil>" by (intro wrap_short_id) simp_all
    then show ?thesis unfolding short_of_double_def l by simp linarith
  qed
qed

lemma exp_factor: "exp (Complex 0 a * of_nat j) = cis (a * real j)"
proof -
  have "Complex 0 a * of_nat j = \<i> * complex_of_real (a * real j)"
    by (simp add: complex_eq_iff)
  then show ?thesis by (simp only: cis_conv_exp)
qed

lemma burst_sample_near:
  assumes "int j < duration s"
  shows "\<bar>real_of_int (burst_sample s (int j)) -
          AMPLITUDE * (cos (factor s * real j) - cos (2 * (factor s * real j)))\<bar> \<le> 1"
proof -
  let ?y = "cos (factor s * real j) - cos (2 * (factor s * real j))"
  have "\<bar>?y\<bar> \<le> 2"
    using abs_cos_le_one [of "factor s * real j"] abs_cos_le_one [of "2 * (factor s * real j)"]
    by linarith
  then have "\<bar>AMPLITUDE * ?y\<bar> \<le> 24000" by (simp add: AMPLITUDE_def abs_mult)
  from short_of_double_near [OF this]
  have near: "\<bar>real_of_int (short_of_double (AMPLITUDE * ?y)) - AMPLITUDE * ?y\<bar> \<le> 1" .
  have arg: "(cos (factor s * real_of_int (int j)) - cos (2 * factor s * real_of_int (int j))) *
             AMPLITUDE = AMPLITUDE * ?y"
    by (simp add: mult_ac)
  have "burst_sample s (int j) = short_of_double (AMPLITUDE * ?y)"
    using assms unfolding burst_sample_def arg by simp
  with near show ?thesis by (simp only:)
qed

lemma truncated_sum:
  assumes D: "0 < duration s"
    and f: "factor s = 2 * pi * real_of_int (numCycle s) / real_of_int (duration s)"
    and c2: "\<not> duration s dvd 2 * numCycle s" and c3: "\<not> duration s dvd 3 * numCycle s"
  shows "cmod ((\<Sum>j = 0..<nat (duration s).
                 of_int (burst_sample s (int j)) * exp (Complex 0 (factor s) * of_nat j)) -
               complex_of_real (AMPLITUDE * real_of_int (duration s) / 2)) \<le>
         real_of_int (duration s)"
proof -
  define n where "n = nat (duration s)"
  have n: "0 < n" "int n = duration s" "real n = real_of_int (duration s)"
    using D by (simp_all add: n_def)
  let ?x = "\<lambda>j. factor s * real j"
  let ?ideal = "\<lambda>j. complex_of_real (cos (?x j) - cos (2 * ?x j)) * cis (?x j)"
  have ideal: "(\<Sum>j<n. ?ideal j) = of_nat n / 2"
    using ideal_sum [of n "numCycle s"] n c2 c3 by (simp add: f)
  have A: "(\<Sum>j = 0..<n. of_int (burst_sample s (int j)) *
               exp (Complex 0 (factor s) * of_nat j)) =
           (\<Sum>j<n. of_int (burst_sample s (int j)) * cis (?x j))"
    by (simp only: exp_factor atLeast0LessThan)
  have "complex_of_real (AMPLITUDE * real_of_int (duration s) / 2) =
        complex_of_real AMPLITUDE * (of_nat n / 2)"
    by (simp add: n(3) [symmetric])
  also have "\<dots> = complex_of_real AMPLITUDE * (\<Sum>j<n. ?ideal j)"
    by (simp only: ideal)
  also have "\<dots> = (\<Sum>j<n. complex_of_real (AMPLITUDE * (cos (?x j) - cos (2 * ?x j))) *
                         cis (?x j))"
    by (simp add: sum_distrib_left mult.assoc)
  finally have B: "complex_of_real (AMPLITUDE * real_of_int (duration s) / 2) =
      (\<Sum>j<n. complex_of_real (AMPLITUDE * (cos (?x j) - cos (2 * ?x j))) * cis (?x j))" .
  have eq: "(\<Sum>j = 0..<n. of_int (burst_sample s (int j)) *
                       exp (Complex 0 (factor s) * of_nat j)) -
        complex_of_real (AMPLITUDE * real_of_int (duration s) / 2) =
        (\<Sum>j<n. complex_of_real (real_of_int (burst_sample s (int j)) -
                          AMPLITUDE * (cos (?x j) - cos (2 * ?x j))) * cis (?x j))"
    unfolding A B by (simp add: sum_subtractf left_diff_distrib)
  have "cmod (\<Sum>j<n. complex_of_real (real_of_int (burst_sample s (int j)) -
                          AMPLITUDE * (cos (?x j) - cos (2 * ?x j))) * cis (?x j)) \<le>
        (\<Sum>j<n. 1)"
  proof (rule sum_norm_le)
    fix j assume "j \<in> {..<n}"
    then have "int j < duration s" using n by simp
    from burst_sample_near [OF this]
    show "cmod (complex_of_real (real_of_int (burst_sample s (int j)) -
                  AMPLITUDE * (cos (?x j) - cos (2 * ?x j))) * cis (?x j)) \<le> 1"
      by (simp only: norm_mult norm_cis norm_of_real mult_1_right)
  qed
  then show ?thesis unfolding n_def [symmetric] eq using n by simp
qed

lemma round_trip_response:
  assumes avg: "1 \<le> numAvg s" and D: "0 < duration s" and DI: "duration s \<le> interval s"
    and fits: "duration s * numAvg s < 2 ^ 31"
    and f: "factor s = 2 * pi * real_of_int (numCycle s) / real_of_int (duration s)"
    and c2: "\<not> duration s dvd 2 * numCycle s" and c3: "\<not> duration s dvd 3 * numCycle s"
  shows "\<exists>c. read s (snd (writeBurst s [])) = (s, Some c, []) \<and> sum2 c = sum1 c \<and>
           cmod (sum1 c - 1) \<le> 1 / 6000"
proof -
  let ?S = "\<Sum>j = 0..<nat (duration s).
              of_int (burst_sample s (int j)) * exp (Complex 0 (factor s) * of_nat j)"
  define T where "T = ?S - complex_of_real (AMPLITUDE * real_of_int (duration s) / 2)"
  have T: "cmod T \<le> real_of_int (duration s)"
    unfolding T_def by (rule truncated_sum [OF D f c2 c3])
  from round_trip_sums [of s] D DI obtain c1 where
    c1: "read_loops s (snd (writeBurst s [])) = (s, c1, [])"
      "sum1 c1 = of_nat (nat (numAvg s)) * ?S" "sum2 c1 = sum1 c1"
    by auto
  define d where "d = real_of_int (wrap_long (duration s * numAvg s)) * AMPLITUDE / 2.0"
  have "0 < duration s * numAvg s" using avg D by simp
  then have w: "wrap_long (duration s * numAvg s) = duration s * numAvg s"
    using fits by (intro wrap_long_id) simp_all
  have d: "d = real_of_int (numAvg s) * (AMPLITUDE * real_of_int (duration s) / 2)"
    by (simp add: d_def w)
  have dpos: "0 < d" using avg D by (simp add: d AMPLITUDE_def)
  define c where "c = c1\<lparr>sum1 := sum1 c1 / complex_of_real d, sum2 := sum2 c1 / complex_of_real d,
                        sum3 := sum3 c1 / complex_of_real d, sum4 := sum4 c1 / complex_of_real d\<rparr>"
  have r: "read s (snd (writeBurst s [])) = (s, Some c, [])"
  proof -
    have "d \<noteq> 0" using dpos by simp
    then show ?thesis
      unfolding read_def c1(1) Let_def prod.case d_def [symmetric] c_def by simp
  qed
  have N: "complex_of_nat (nat (numAvg s)) = complex_of_real (real_of_int (numAvg s))"
    using avg by simp
  have S: "?S = T + complex_of_real (AMPLITUDE * real_of_int (duration s) / 2)"
    by (simp add: T_def)
  have "sum1 c - 1 =
        (complex_of_real (real_of_int (numAvg s)) * ?S - complex_of_real d) / complex_of_real d"
    using dpos by (simp add: c_def c1(2) N diff_divide_distrib)
  also have "complex_of_real (real_of_int (numAvg s)) * ?S - complex_of_real d =
             complex_of_real (real_of_int (numAvg s)) * T"
    unfolding S d by (simp add: algebra_simps)
  finally have e: "sum1 c - 1 =
      complex_of_real (real_of_int (numAvg s)) * T / complex_of_real d" .
  have "cmod (sum1 c - 1) = real_of_int (numAvg s) * cmod T / d"
    unfolding e using avg dpos by (simp add: norm_divide norm_mult)
  also have "\<dots> \<le> real_of_int (numAvg s) * real_of_int (duration s) / d"
    using T avg dpos by (intro divide_right_mono mult_left_mono) simp_all
  also have "\<dots> = 1 / 6000"
    using avg D by (simp add: d AMPLITUDE_def)
  finally have "cmod (sum1 c - 1) \<le> 1 / 6000" .
  moreover have "sum2 c = sum1 c" by (simp add: c_def c1(3))
  ultimately show ?thesis using r by blast
qed

section \<open>A burst that is silent\<close>

lemma reset_14700: "reset (default_burst\<lparr>startFreq := 14700\<rparr>) = Some burst_14700"
proof -
  have l: "calc_loop 3 100 1 = Some 34"
    by (simp add: calc_loop_step wrap_long_id calc_loop_exit)
  have d: "long_of_double 102 = 102"
    by (simp add: long_of_double_floor)
  show ?thesis
    by (simp add: reset_def Let_def calc_def default_burst_def toneBurst_fields_def
        burst_14700_def SAMPLE_RATE_def BURST_LENGTH_def INTERVAL_def wrap_long_id l d)
qed

lemma cos_third: "cos (2 * (2 * pi / 3 * real_of_int j)) = cos (2 * pi / 3 * real_of_int j)"
proof -
  have "2 * (2 * pi / 3 * real_of_int j) = 2 * pi * real_of_int j - 2 * pi / 3 * real_of_int j"
    by (simp add: field_simps)
  then have "cos (2 * (2 * pi / 3 * real_of_int j)) =
      cos (2 * pi * real_of_int j - 2 * pi / 3 * real_of_int j)" by (simp only:)
  also have "\<dots> = cos (2 * pi / 3 * real_of_int j)"
    by (simp only: cos_diff cos_int_2pin sin_int_2pin)
  finally show ?thesis .
qed

lemma silent_14700: "burst_sample burst_14700 j = 0"
proof -
  have f: "factor burst_14700 = 2 * pi / 3"
    by (simp add: burst_14700_def)
  have "cos (factor burst_14700 * real_of_int j) - cos (2 * factor burst_14700 * real_of_int j) = 0"
    using cos_third [of j] by (simp add: f mult.assoc)
  then show ?thesis
    by (simp add: burst_sample_def short_of_double_def long_of_double_def wrap_short_def)
qed

section \<open>The phase step that calc leaves\<close>

lemma calc_factor:
  assumes "calc s0 = Some s"
  shows "factor s = 2 * pi * real_of_int (numCycle s) / real_of_int (duration s) \<and>
         duration s \<noteq> 0"
  using assms by (auto simp: calc_def Let_def split: if_splits option.splits)

section \<open>Every burst of the default sweep\<close>

lemma iter_next_last:
  "iter_next (Suc k) s =
     (case iter_next k s of
        None \<Rightarrow> None
      | Some s1 \<Rightarrow> (case nextBurst s1 of None \<Rightarrow> None | Some (b, s2) \<Rightarrow> Some s2))"
proof (induction k arbitrary: s)
  case 0
  then show ?case by (simp split: option.splits)
next
  case (Suc k)
  show ?case
  proof (cases "nextBurst s")
    case None
    then show ?thesis by simp
  next
    case (Some p)
    obtain b s1 where p: "p = (b, s1)" by (cases p)
    have "iter_next (Suc (Suc k)) s = iter_next (Suc k) s1" using Some p by simp
    also note Suc.IH [of s1]
    finally show ?thesis using Some p by simp
  qed
qed

lemma calc_post:
  assumes "calc t0 = Some t"
  shows "nominalFreq t = nominalFreq t0 \<and> sampleRate t = sampleRate t0 \<and>
         burstMin t = burstMin t0 \<and> numAvg t = numAvg t0 \<and> interval t = interval t0 \<and>
         freqIncr t = freqIncr t0 \<and> sweep t = sweep t0 \<and>
         calc_loop (real_of_int (sampleRate t0) / nominalFreq t0) (burstMin t0) (numCycle t0) =
           Some (numCycle t) \<and>
         duration t =
           long_of_double (real_of_int (sampleRate t0) / nominalFreq t0 * real_of_int (numCycle t))"
  using assms by (auto simp: calc_def Let_def split: if_splits option.splits)

lemma nextBurst_sweep_calc:
  assumes "sweep s" "0 < burstCount s" "nextBurst s = Some (b, s1)"
  shows "\<exists>t. calc (s\<lparr>nominalFreq := nominalFreq s * freqIncr s\<rparr>) = Some t \<and>
             s1 = t\<lparr>burstCount := wrap_long (burstCount t - 1)\<rparr>"
  using assms by (auto simp: nextBurst_def split: option.splits)

lemma nextBurst_io:
  assumes "nextBurst s = Some (b, s1)"
  shows "numAvg s1 = numAvg s \<and> interval s1 = interval s \<and> sampleRate s1 = sampleRate s \<and>
         burstMin s1 = burstMin s \<and> freqIncr s1 = freqIncr s"
proof (cases "sweep s \<and> 0 < burstCount s")
  case True
  with nextBurst_sweep_calc [of s b s1] assms obtain t where
    t: "calc (s\<lparr>nominalFreq := nominalFreq s * freqIncr s\<rparr>) = Some t"
      "s1 = t\<lparr>burstCount := wrap_long (burstCount t - 1)\<rparr>"
    by blast
  from calc_post [OF t(1)] t(2) show ?thesis by simp
next
  case False
  with assms show ?thesis by (auto simp: nextBurst_def split: if_splits)
qed

lemma iter_next_io:
  assumes "iter_next k s = Some s1"
  shows "numAvg s1 = numAvg s \<and> interval s1 = interval s \<and> sampleRate s1 = sampleRate s \<and>
         burstMin s1 = burstMin s \<and> freqIncr s1 = freqIncr s"
  using assms
proof (induction k arbitrary: s)
  case 0
  then show ?case by simp
next
  case (Suc k)
  then obtain b s2 where n: "nextBurst s = Some (b, s2)" and it: "iter_next k s2 = Some s1"
    by (auto split: option.splits)
  from Suc.IH [OF it] nextBurst_io [OF n] show ?case by simp
qed

lemma sweep_burst_fields:
  "sweep sweep_burst" "sampleRate sweep_burst = 44100" "burstMin sweep_burst = 100"
  "burstCount sweep_burst = 201" "numCycle sweep_burst = 1" "nominalFreq sweep_burst = 100"
  "freqIncr sweep_burst = 100 powr (1 / 200)" "numAvg sweep_burst = 1"
  "interval sweep_burst = 22050" "duration sweep_burst = 441"
  "factor sweep_burst = 2 * pi * 100 / 44100"
  by (simp_all add: sweep_burst_def default_burst_def toneBurst_fields_def SAMPLE_RATE_def
      BURST_LENGTH_def INTERVAL_def)

lemma default_sweep_burst:
  assumes "k \<le> 200"
  shows "\<exists>s. iter_next k sweep_burst = Some s \<and> numAvg s = 1 \<and> interval s = 22050 \<and>
           100 \<le> duration s \<and> duration s \<le> 20286 \<and> 1 \<le> numCycle s \<and>
           3 * numCycle s < duration s \<and>
           factor s = 2 * pi * real_of_int (numCycle s) / real_of_int (duration s)"
proof (cases k)
  case 0
  then show ?thesis by (simp add: sweep_burst_fields)
next
  case (Suc k')
  have k': "k' \<le> 201" "Suc k' \<le> 201" using assms Suc by simp_all
  from default_ladder [OF k'(1)] obtain s0 where
    s0: "iter_next k' sweep_burst = Some s0" "sweep s0" "burstCount s0 = 201 - int k'"
      "nominalFreq s0 = 100 * (100 powr (1 / 200)) ^ k'"
    by blast
  from default_ladder [OF k'(2)] obtain s where
    s: "iter_next (Suc k') sweep_burst = Some s" "1 \<le> numCycle s" "numCycle s \<le> 46"
      "nominalFreq s = 100 * (100 powr (1 / 200)) ^ Suc k'"
    by blast
  have "(case nextBurst s0 of None \<Rightarrow> None | Some (b, s2) \<Rightarrow> Some s2) = Some s"
    using s(1) unfolding iter_next_last s0(1) by (simp only: option.case)
  then obtain b where n: "nextBurst s0 = Some (b, s)"
    by (auto split: option.splits)
  have pos: "0 < burstCount s0" using s0(3) assms Suc by simp
  from nextBurst_sweep_calc [OF s0(2) pos n] obtain t where
    t: "calc (s0\<lparr>nominalFreq := nominalFreq s0 * freqIncr s0\<rparr>) = Some t"
      "s = t\<lparr>burstCount := wrap_long (burstCount t - 1)\<rparr>"
    by blast
  from iter_next_io [OF s0(1)] have io0: "sampleRate s0 = 44100" "burstMin s0 = 100"
    by (simp_all add: sweep_burst_fields)
  from iter_next_io [OF s(1)] have io: "numAvg s = 1" "interval s = 22050"
    by (simp_all add: sweep_burst_fields)
  define q where "q = 44100 / nominalFreq s"
  from calc_post [OF t(1)] t(2) io0
  have nf: "nominalFreq (s0\<lparr>nominalFreq := nominalFreq s0 * freqIncr s0\<rparr>) = nominalFreq s"
    and loop: "calc_loop q 100 (numCycle s0) = Some (numCycle s)"
    and dur: "duration s = long_of_double (q * real_of_int (numCycle s))"
    by (simp_all add: q_def)
  from calc_factor [OF t(1)] t(2)
  have fac: "factor s = 2 * pi * real_of_int (numCycle s) / real_of_int (duration s)" by simp
  have f: "100 \<le> nominalFreq s" "nominalFreq s \<le> 10000"
  proof -
    show "100 \<le> nominalFreq s" using default_freqs(1) [OF k'(2)] s(4) by simp
    have "((100::real) powr (1 / 200)) ^ Suc k' \<le> (100 powr (1 / 200)) ^ 200"
      using ratio_up(1) assms Suc by (intro power_increasing) simp_all
    then show "nominalFreq s \<le> 10000" using root_power [of 100] s(4) by simp
  qed
  have q: "441 / 100 \<le> q" "q \<le> 441"
    using f by (simp_all add: q_def field_simps)
  have reach: "100 \<le> q * real_of_int (numCycle s)"
    using calc_loop_result [OF loop] by simp
  have up: "q * real_of_int (numCycle s) \<le> 441 * 46"
    using q s(2,3) by (intro mult_mono) simp_all
  have d: "duration s = \<lfloor>q * real_of_int (numCycle s)\<rfloor>"
    unfolding dur using reach up by (intro long_of_double_floor) simp_all
  have d100: "100 \<le> duration s" unfolding d using reach by (simp add: le_floor_iff)
  have dmax: "duration s \<le> 20286" unfolding d using up by (simp add: floor_le_iff)
  have "real_of_int (3 * numCycle s) + 1 \<le> 441 / 100 * real_of_int (numCycle s)"
    using s(2) by simp
  also have "\<dots> \<le> q * real_of_int (numCycle s)"
    using q(1) s(2) by (intro mult_right_mono) simp_all
  finally have "real_of_int (3 * numCycle s) < q * real_of_int (numCycle s) - 1 + 1"
    "real_of_int (3 * numCycle s + 1) \<le> q * real_of_int (numCycle s)" by simp_all
  then have "3 * numCycle s + 1 \<le> duration s" unfolding d by (simp only: le_floor_iff)
  with s(1,2) io d100 dmax fac Suc show ?thesis by simp
qed

section \<open>The analyzer on the file of the generator\<close>

lemma skip_fold:
  "snd (fold (\<lambda>i (a, f). let (a, f) = get_short a f; (a, f) = get_short a f in (a, f)) is
          (a, infile)) = drop (2 * length is) infile"
proof (induction "is" arbitrary: a infile)
  case Nil
  then show ?case by simp
next
  case (Cons i "is")
  show ?case
  proof (cases infile)
    case Nil
    with Cons.IH [of a "[]"] show ?thesis by simp
  next
    case (Cons x xs)
    note outer = this
    show ?thesis
    proof (cases xs)
      case Nil
      with outer Cons.IH [of x "[]"] show ?thesis by simp
    next
      case (Cons y ys)
      with outer Cons.IH [of y ys] show ?thesis by simp
    qed
  qed
qed

lemma skip_loop_drop:
  "skip_loop s infile =
     (drop (2 * nat (delay s)) infile, length infile < 2 * nat (delay s))"
  unfolding skip_loop_def skip_fold by simp

lemma skip_delay_loop: "skip_loop s (delay_loop s [] @ w) = (w, False)"
  by (simp add: skip_loop_drop length_delay_loop)

lemma read_body_rest:
  "read_body j (s, c, x # y # rest) = (s, fst (snd (read_body j (s, c, [x, y]))), rest)"
  by (simp add: read_body_def Let_def)

lemma fold_read_rest:
  "fold read_body js (s, c, stereo s js @ rest) =
     (s, fst (snd (fold read_body js (s, c, stereo s js))), rest)"
proof (induction js arbitrary: c)
  case Nil
  then show ?case by (simp add: stereo_def)
next
  case (Cons j js)
  let ?a = "burst_sample s j"
  let ?c1 = "fst (snd (read_body j (s, c, [?a, ?a])))"
  have st: "stereo s (j # js) = ?a # ?a # stereo s js" by (simp add: stereo_def)
  have a: "read_body j (s, c, ?a # ?a # (stereo s js @ rest)) = (s, ?c1, stereo s js @ rest)"
    by (rule read_body_rest)
  have b: "read_body j (s, c, ?a # ?a # stereo s js) = (s, ?c1, stereo s js)"
    by (rule read_body_rest)
  have "fold read_body (j # js) (s, c, stereo s (j # js) @ rest) =
        fold read_body js (s, ?c1, stereo s js @ rest)"
    using a by (simp add: st)
  also have "\<dots> = (s, fst (snd (fold read_body js (s, ?c1, stereo s js))), rest)"
    by (rule Cons.IH)
  also have "fold read_body js (s, ?c1, stereo s js) =
             fold read_body (j # js) (s, c, stereo s (j # js))"
    using b by (simp add: st)
  finally show ?case .
qed

lemma writeBurst_append: "snd (writeBurst s outfile) = outfile @ snd (writeBurst s [])"
  by (simp add: writeBurst_stream)

lemma read_rest:
  "read s (snd (writeBurst s []) @ rest) = (s, fst (snd (read s (snd (writeBurst s [])))), rest)"
proof -
  define js where "js = concat (replicate (nat (numAvg s)) [0..interval s - 1])"
  have w: "snd (writeBurst s []) = stereo s js" by (simp add: writeBurst_stream js_def)
  have l: "read_loops s (stereo s js @ rest) =
           (s, fst (snd (read_loops s (stereo s js))), rest)"
    using fold_read_rest [of js s read_init rest]
    by (simp add: read_loops_def js_def fold_nested)
  have l0: "read_loops s (stereo s js) = (s, fst (snd (read_loops s (stereo s js))), [])"
    using fold_read_rest [of js s read_init "[]"]
    by (simp add: read_loops_def js_def fold_nested)
  show ?thesis
    unfolding w read_def l by (subst (2) l0) (simp add: Let_def)
qed

lemma loops_in_step:
  assumes "burstCount s = int n" "burstCount s \<le> 2 ^ 31"
    and "burst_loop s outfile = Some (s', out')"
  shows "\<exists>w L. out' = outfile @ w \<and> length L = n \<and>
           (\<forall>k<n. \<exists>sk. iter_next k s = Some sk \<and> L ! k = (sk, echo sk)) \<and>
           (\<forall>rest acc. analyze_loop s (w @ rest) False acc = Some (Done, acc @ L))"
  using assms
proof (induction n arbitrary: s outfile)
  case 0
  have g: "\<not> good s" using "0.prems"(1) by (simp add: good_def)
  have "out' = outfile" using "0.prems"(3) g by (subst (asm) burst_loop.simps) simp
  moreover have "analyze_loop s ([] @ rest) False acc = Some (Done, acc @ [])" for rest acc
    using g by (subst analyze_loop.simps) simp
  ultimately show ?case by (intro exI [of _ "[]"]) simp
next
  case (Suc n)
  have pos: "0 < burstCount s" using Suc.prems(1) by simp
  then have g: "good s" by (simp add: good_def)
  let ?W = "snd (writeBurst s [])"
  have w: "writeBurst s outfile = (s, outfile @ ?W)"
    using writeBurst_fst [of s outfile] writeBurst_append [of s outfile]
    by (cases "writeBurst s outfile") simp
  from Suc.prems(3) g w obtain b s2 where
    n: "nextBurst s = Some (b, s2)" and rest: "burst_loop s2 (outfile @ ?W) = Some (s', out')"
    by (subst (asm) burst_loop.simps) (auto split: option.splits)
  from nextBurst_frame [OF n pos Suc.prems(2)] Suc.prems(1)
  have bc: "burstCount s2 = int n" by simp
  then have bc2: "burstCount s2 \<le> 2 ^ 31" using Suc.prems(1,2) by simp
  from Suc.IH [OF bc bc2 rest] obtain w' L' where
    IH: "out' = (outfile @ ?W) @ w'" "length L' = n"
      "\<forall>k<n. \<exists>sk. iter_next k s2 = Some sk \<and> L' ! k = (sk, echo sk)"
      "\<forall>rest acc. analyze_loop s2 (w' @ rest) False acc = Some (Done, acc @ L')"
    by blast
  let ?L = "(s, echo s) # L'"
  have lenW: "length ?W = 2 * (nat (numAvg s) * nat (interval s))"
    using length_writeBurst [of s "[]"] by simp
  have a: "analyze_loop s ((?W @ w') @ rest) False acc = Some (Done, acc @ ?L)" for rest acc
  proof -
    have r: "read s (?W @ (w' @ rest)) = (s, echo s, w' @ rest)"
      unfolding echo_def by (rule read_rest)
    have e: "\<not> read_past_end s (?W @ (w' @ rest))"
      by (simp add: read_past_end_def lenW)
    have "analyze_loop s (?W @ (w' @ rest)) False acc =
          analyze_loop s2 (w' @ rest) False (acc @ [(s, echo s)])"
      using g r e n by (subst analyze_loop.simps) simp
    with IH(4) show ?thesis by simp
  qed
  have k: "\<exists>sk. iter_next k s = Some sk \<and> ?L ! k = (sk, echo sk)" if "k < Suc n" for k
  proof (cases k)
    case 0
    then show ?thesis by simp
  next
    case (Suc k')
    with that IH(3) obtain sk where "iter_next k' s2 = Some sk" "L' ! k' = (sk, echo sk)"
      by auto
    with Suc n show ?thesis by simp
  qed
  have "out' = outfile @ (?W @ w')" using IH(1) by simp
  moreover have "length ?L = Suc n" using IH(2) by simp
  ultimately show ?case using a k by blast
qed

lemma tba_on_tbg:
  assumes "tbg args = Some (myRiff, myData, out)"
  shows "\<exists>p L. reset (configure args default_burst) = Some p \<and>
           tba args (myRiff, myData, out) = Some (Done, L) \<and> length L = nat (burstCount p) \<and>
           (\<forall>k<nat (burstCount p). \<exists>sk. iter_next k p = Some sk \<and> L ! k = (sk, echo sk))"
proof -
  let ?b = "configure args default_burst"
  from assms obtain p s2 where
    r: "reset ?b = Some p" and l: "burst_loop p (delay_loop ?b []) = Some (s2, out)"
    by (auto simp: tbg_def ctor_value Let_def split: option.splits)
  from reset_frame [OF r] configure_consts [of args]
  have bc: "burstCount p = int (nat (burstCount p))" "burstCount p \<le> 2 ^ 31" by auto
  from loops_in_step [OF bc l] obtain w L where
    L: "out = delay_loop ?b [] @ w" "length L = nat (burstCount p)"
      "\<forall>k<nat (burstCount p). \<exists>sk. iter_next k p = Some sk \<and> L ! k = (sk, echo sk)"
      "\<forall>rest acc. analyze_loop p (w @ rest) False acc = Some (Done, acc @ L)"
    by blast
  from L(4) have "analyze_loop p (w @ []) False [] = Some (Done, [] @ L)" by blast
  then have a: "analyze_loop p w False [] = Some (Done, L)" by simp
  have "tba args (myRiff, myData, out) = Some (Done, L)"
    by (simp add: tba_def ctor_value Let_def L(1) skip_delay_loop r a)
  with r L(2,3) show ?thesis by blast
qed

lemma reset_factor:
  assumes "reset s = Some p"
  shows "factor p = 2 * pi * real_of_int (numCycle p) / real_of_int (duration p)"
  using assms by (auto simp: reset_def Let_def split: if_splits dest!: calc_factor)

lemma nextBurst_factor:
  assumes "nextBurst s = Some (b, s1)"
    and "factor s = 2 * pi * real_of_int (numCycle s) / real_of_int (duration s)"
  shows "factor s1 = 2 * pi * real_of_int (numCycle s1) / real_of_int (duration s1)"
proof (cases "sweep s \<and> 0 < burstCount s")
  case True
  with nextBurst_sweep_calc [of s b s1] assms(1) obtain t where
    t: "calc (s\<lparr>nominalFreq := nominalFreq s * freqIncr s\<rparr>) = Some t"
      "s1 = t\<lparr>burstCount := wrap_long (burstCount t - 1)\<rparr>"
    by blast
  from calc_factor [OF t(1)] t(2) show ?thesis by simp
next
  case False
  with assms show ?thesis by (auto simp: nextBurst_def split: if_splits)
qed

lemma iter_next_factor:
  assumes "iter_next k s = Some sk"
    and "factor s = 2 * pi * real_of_int (numCycle s) / real_of_int (duration s)"
  shows "factor sk = 2 * pi * real_of_int (numCycle sk) / real_of_int (duration sk)"
  using assms
proof (induction k arbitrary: s)
  case 0
  then show ?case by simp
next
  case (Suc k)
  then obtain b s2 where n: "nextBurst s = Some (b, s2)" and it: "iter_next k s2 = Some sk"
    by (auto split: option.splits)
  from Suc.IH [OF it nextBurst_factor [OF n Suc.prems(2)]] show ?case .
qed

section \<open>Round trip of the whole sequence\<close>

lemma echo_response:
  assumes "1 \<le> numAvg s" and "0 < duration s" and "duration s \<le> interval s"
    and "duration s * numAvg s < 2 ^ 31"
    and "factor s = 2 * pi * real_of_int (numCycle s) / real_of_int (duration s)"
    and "\<not> duration s dvd 2 * numCycle s" and "\<not> duration s dvd 3 * numCycle s"
  shows "\<exists>c. echo s = Some c \<and> sum2 c = sum1 c \<and>
           \<bar>cmod (sum1 c) - 1\<bar> \<le> 1 / 6000 \<and> \<bar>cmod (sum2 c) - 1\<bar> \<le> 1 / 6000"
proof -
  from round_trip_response [OF assms] obtain c where
    c: "read s (snd (writeBurst s [])) = (s, Some c, [])" "sum2 c = sum1 c"
      "cmod (sum1 c - 1) \<le> 1 / 6000"
    by blast
  have "\<bar>cmod (sum1 c) - cmod 1\<bar> \<le> cmod (sum1 c - 1)" by (rule norm_triangle_ineq3)
  with c(3) have "\<bar>cmod (sum1 c) - 1\<bar> \<le> 1 / 6000" by simp
  with c show ?thesis by (simp add: echo_def)
qed

text \<open>
  Claim C1, as amended. Let the generator, run with some command line, complete and
  leave a file, and let \<open>p\<close> be the object after \<open>reset\<close>. Let the averaging count be at
  least 1 and let every burst of the sequence, the object \<open>s\<close> after \<open>k\<close> calls of \<open>next\<close>,
  fit its interval (\<open>0 < duration \<le> interval\<close>, \<open>duration * numAvg\<close> within a \<open>long\<close>) with
  \<open>duration\<close> dividing neither \<open>2 * numCycle\<close> nor \<open>3 * numCycle\<close>. Then the analyzer, run
  with the same command line on that file, ends with \<^verbatim>\<open>return 0\<close> and prints one line for
  each burst, in order; on every line the object is the one the generator wrote the burst
  from, the two channel responses are equal, so their phase difference is 0, and their
  magnitude is within \<open>1 / 6000\<close> of 1. The delay of the command line is any value, 0
  included.
\<close>

theorem round_trip:
  assumes "tbg args = Some (myRiff, myData, out)"
    and "reset (configure args default_burst) = Some p"
    and "1 \<le> numAvg (configure args default_burst)"
    and "\<And>k s. k < nat (burstCount p) \<Longrightarrow> iter_next k p = Some s \<Longrightarrow>
           0 < duration s \<and> duration s \<le> interval s \<and> duration s * numAvg s < 2 ^ 31 \<and>
           \<not> duration s dvd 2 * numCycle s \<and> \<not> duration s dvd 3 * numCycle s"
  shows "\<exists>L. tba args (myRiff, myData, out) = Some (Done, L) \<and> length L = nat (burstCount p) \<and>
           (\<forall>k<nat (burstCount p). \<exists>s c. iter_next k p = Some s \<and> L ! k = (s, Some c) \<and>
              sum2 c = sum1 c \<and> \<bar>cmod (sum1 c) - 1\<bar> \<le> 1 / 6000 \<and>
              \<bar>cmod (sum2 c) - 1\<bar> \<le> 1 / 6000)"
proof -
  from tba_on_tbg [OF assms(1)] assms(2) obtain L where
    L: "tba args (myRiff, myData, out) = Some (Done, L)" "length L = nat (burstCount p)"
      "\<forall>k<nat (burstCount p). \<exists>sk. iter_next k p = Some sk \<and> L ! k = (sk, echo sk)"
    by auto
  have avg: "numAvg p = numAvg (configure args default_burst)"
    using reset_frame [OF assms(2)] by simp
  have "\<exists>s c. iter_next k p = Some s \<and> L ! k = (s, Some c) \<and>
              sum2 c = sum1 c \<and> \<bar>cmod (sum1 c) - 1\<bar> \<le> 1 / 6000 \<and>
              \<bar>cmod (sum2 c) - 1\<bar> \<le> 1 / 6000" if k: "k < nat (burstCount p)" for k
  proof -
    from L(3) k obtain s where s: "iter_next k p = Some s" "L ! k = (s, echo s)" by blast
    from assms(4) [OF k s(1)]
    have b: "0 < duration s" "duration s \<le> interval s" "duration s * numAvg s < 2 ^ 31"
      "\<not> duration s dvd 2 * numCycle s" "\<not> duration s dvd 3 * numCycle s" by simp_all
    have n: "1 \<le> numAvg s" using iter_next_io [OF s(1)] avg assms(3) by simp
    have f: "factor s = 2 * pi * real_of_int (numCycle s) / real_of_int (duration s)"
      using iter_next_factor [OF s(1) reset_factor [OF assms(2)]] .
    from echo_response [OF n b(1,2,3) f b(4,5)] s show ?thesis by auto
  qed
  with L(1,2) show ?thesis by blast
qed

lemma calc_delay: "calc (s\<lparr>delay := d\<rparr>) = map_option (\<lambda>t. t\<lparr>delay := d\<rparr>) (calc s)"
  by (simp add: calc_def Let_def split: option.splits)

lemma nextBurst_delay:
  "nextBurst (s\<lparr>delay := d\<rparr>) = map_option (\<lambda>(b, t). (b, t\<lparr>delay := d\<rparr>)) (nextBurst s)"
proof -
  have c: "calc (s\<lparr>delay := d, nominalFreq := x\<rparr>) =
           map_option (\<lambda>t. t\<lparr>delay := d\<rparr>) (calc (s\<lparr>nominalFreq := x\<rparr>))" for x
  proof -
    have e: "s\<lparr>delay := d, nominalFreq := x\<rparr> = (s\<lparr>nominalFreq := x\<rparr>)\<lparr>delay := d\<rparr>"
      by simp
    show ?thesis unfolding e by (rule calc_delay)
  qed
  show ?thesis
    by (cases "calc (s\<lparr>nominalFreq := nominalFreq s * freqIncr s\<rparr>)")
       (simp_all add: nextBurst_def c)
qed

lemma iter_next_delay:
  "iter_next k (s\<lparr>delay := d\<rparr>) = map_option (\<lambda>t. t\<lparr>delay := d\<rparr>) (iter_next k s)"
proof (induction k arbitrary: s)
  case 0
  then show ?case by simp
next
  case (Suc k)
  show ?case
  proof (cases "nextBurst s")
    case None
    then show ?thesis by (simp add: nextBurst_delay)
  next
    case (Some q)
    then show ?thesis by (cases q) (simp add: nextBurst_delay Suc.IH)
  qed
qed

lemma default_sequence:
  assumes "k < 201" and "iter_next k (sweep_burst\<lparr>delay := d\<rparr>) = Some s"
  shows "0 < duration s \<and> duration s \<le> interval s \<and> duration s * numAvg s < 2 ^ 31 \<and>
         \<not> duration s dvd 2 * numCycle s \<and> \<not> duration s dvd 3 * numCycle s"
proof -
  from assms(1) have "k \<le> 200" by simp
  from default_sweep_burst [OF this] obtain s0 where
    s0: "iter_next k sweep_burst = Some s0" "numAvg s0 = 1" "interval s0 = 22050"
      "100 \<le> duration s0" "duration s0 \<le> 20286" "1 \<le> numCycle s0"
      "3 * numCycle s0 < duration s0"
    by blast
  from assms(2) s0(1) have s: "s = s0\<lparr>delay := d\<rparr>" by (simp add: iter_next_delay)
  have c2: "\<not> duration s0 dvd 2 * numCycle s0"
  proof
    assume "duration s0 dvd 2 * numCycle s0"
    then have "duration s0 \<le> 2 * numCycle s0" using s0(6) by (intro zdvd_imp_le) simp_all
    with s0(6,7) show False by simp
  qed
  have c3: "\<not> duration s0 dvd 3 * numCycle s0"
  proof
    assume "duration s0 dvd 3 * numCycle s0"
    then have "duration s0 \<le> 3 * numCycle s0" using s0(6) by (intro zdvd_imp_le) simp_all
    with s0(7) show False by simp
  qed
  from s0 c2 c3 show ?thesis by (simp add: s)
qed

theorem round_trip_witness:
  "tbg (Argc3 0) \<noteq> None \<and>
   reset (configure (Argc3 0) default_burst) = Some (sweep_burst\<lparr>delay := 0\<rparr>) \<and>
   1 \<le> numAvg (configure (Argc3 0) default_burst) \<and>
   (\<exists>L. tba (Argc3 0) (the (tbg (Argc3 0))) = Some (Done, L) \<and> length L = 201 \<and>
      (\<exists>s c. iter_next 200 (sweep_burst\<lparr>delay := 0\<rparr>) = Some s \<and> L ! 200 = (s, Some c) \<and>
         sum2 c = sum1 c \<and> \<bar>cmod (sum1 c) - 1\<bar> \<le> 1 / 6000 \<and>
         \<bar>cmod (sum2 c) - 1\<bar> \<le> 1 / 6000))"
proof -
  have c: "configure (Argc3 0) default_burst = default_burst\<lparr>numAvg := 1, delay := 0\<rparr>"
    by (simp add: default_burst_def toneBurst_fields_def)
  from tbg_default_sweep [OF c] obtain myRiff myData out where
    t: "tbg (Argc3 0) = Some (myRiff, myData, out)" by blast
  have r: "reset (configure (Argc3 0) default_burst) = Some (sweep_burst\<lparr>delay := 0\<rparr>)"
    unfolding c reset_default_io
    by (simp add: sweep_burst_def default_burst_def toneBurst_fields_def)
  have n: "1 \<le> numAvg (configure (Argc3 0) default_burst)"
    by (simp add: default_burst_def toneBurst_fields_def)
  have bc: "nat (burstCount (sweep_burst\<lparr>delay := 0\<rparr>)) = 201"
    by (simp add: sweep_burst_fields)
  have "\<exists>L. tba (Argc3 0) (myRiff, myData, out) = Some (Done, L) \<and>
          length L = nat (burstCount (sweep_burst\<lparr>delay := 0\<rparr>)) \<and>
          (\<forall>k<nat (burstCount (sweep_burst\<lparr>delay := 0\<rparr>)).
             \<exists>s c. iter_next k (sweep_burst\<lparr>delay := 0\<rparr>) = Some s \<and> L ! k = (s, Some c) \<and>
               sum2 c = sum1 c \<and> \<bar>cmod (sum1 c) - 1\<bar> \<le> 1 / 6000 \<and>
               \<bar>cmod (sum2 c) - 1\<bar> \<le> 1 / 6000)"
  proof (rule round_trip [OF t r n])
    fix k s
    assume "k < nat (burstCount (sweep_burst\<lparr>delay := 0\<rparr>))"
      and "iter_next k (sweep_burst\<lparr>delay := 0\<rparr>) = Some s"
    then show "0 < duration s \<and> duration s \<le> interval s \<and>
        duration s * numAvg s < 2 ^ 31 \<and>
        \<not> duration s dvd 2 * numCycle s \<and> \<not> duration s dvd 3 * numCycle s"
      using default_sequence [of k 0 s] by (simp add: sweep_burst_fields)
  qed
  then obtain L where
    L: "tba (Argc3 0) (myRiff, myData, out) = Some (Done, L)" "length L = 201"
      "\<forall>k<201. \<exists>s c. iter_next k (sweep_burst\<lparr>delay := 0\<rparr>) = Some s \<and> L ! k = (s, Some c) \<and>
              sum2 c = sum1 c \<and> \<bar>cmod (sum1 c) - 1\<bar> \<le> 1 / 6000 \<and>
              \<bar>cmod (sum2 c) - 1\<bar> \<le> 1 / 6000"
    unfolding bc by blast
  from L(3) have "\<exists>s c. iter_next 200 (sweep_burst\<lparr>delay := 0\<rparr>) = Some s \<and>
      L ! 200 = (s, Some c) \<and> sum2 c = sum1 c \<and> \<bar>cmod (sum1 c) - 1\<bar> \<le> 1 / 6000 \<and>
      \<bar>cmod (sum2 c) - 1\<bar> \<le> 1 / 6000" by simp
  with t r n L(1,2) show ?thesis by auto
qed

section \<open>The sweep from 14700 Hz\<close>

lemma reset_delay: "reset (s\<lparr>delay := d\<rparr>) = map_option (\<lambda>t. t\<lparr>delay := d\<rparr>) (reset s)"
proof -
  have e: "s\<lparr>delay := d, numCycle := a, burstCount := b, nominalFreq := c, numBurst := n,
             stopFreq := y, freqIncr := z\<rparr> =
           (s\<lparr>numCycle := a, burstCount := b, nominalFreq := c, numBurst := n,
             stopFreq := y, freqIncr := z\<rparr>)\<lparr>delay := d\<rparr>" for a b c n y z
    by simp
  show ?thesis by (simp add: reset_def Let_def e calc_delay)
qed

lemma freqs_14700:
  assumes "j \<le> 201"
  shows "100 \<le> 14700 * (((10000 / 14700)::real) powr (1 / 200)) ^ j"
    and "14700 * (((10000 / 14700)::real) powr (1 / 200)) ^ j \<le> 20000"
proof -
  let ?r = "((10000 / 14700)::real) powr (1 / 200)"
  have r0: "0 \<le> ?r" by simp
  have r1: "?r \<le> 1" by (rule powr_le1) simp_all
  have p200: "?r ^ 200 = 10000 / 14700" by (rule root_power) simp
  have "?r ^ 200 \<le> ?r ^ 1" using r0 r1 by (intro power_decreasing) simp_all
  then have rlow: "10000 / 14700 \<le> ?r" using p200 by simp
  have "?r ^ 201 \<le> ?r ^ j" using assms r0 r1 by (intro power_decreasing) simp_all
  moreover have "?r ^ 201 = ?r ^ 200 * ?r" using power_add [of ?r 200 1] by simp
  moreover have "10000 / 14700 * (10000 / 14700) \<le> ?r ^ 200 * ?r"
    unfolding p200 using rlow by (intro mult_left_mono) simp_all
  ultimately have "10000 / 14700 * (10000 / 14700) \<le> ?r ^ j" by simp
  then show "100 \<le> 14700 * ?r ^ j" by simp
  have "?r ^ j \<le> 1" using r0 r1 by (rule power_le_one)
  then show "14700 * ?r ^ j \<le> 20000" by simp
qed

lemma ladder_14700: "\<exists>s1. iter_next 201 burst_14700 = Some s1"
proof -
  have f: "sweep burst_14700" "sampleRate burst_14700 = 44100" "burstMin burst_14700 = 100"
    "burstCount burst_14700 = 201" "numCycle burst_14700 = 34" "nominalFreq burst_14700 = 14700"
    "freqIncr burst_14700 = (10000 / 14700) powr (1 / 200)"
    by (simp_all add: burst_14700_def default_burst_def toneBurst_fields_def SAMPLE_RATE_def
        BURST_LENGTH_def)
  have b: "0 < nominalFreq burst_14700 * freqIncr burst_14700 ^ j \<and>
           real_of_int (burstMin burst_14700) \<le>
             real_of_int (sampleRate burst_14700) /
               (nominalFreq burst_14700 * freqIncr burst_14700 ^ j) * real_of_int 46 \<and>
           real_of_int (sampleRate burst_14700) /
               (nominalFreq burst_14700 * freqIncr burst_14700 ^ j) * real_of_int 46 < 2 ^ 31"
    if "1 \<le> j" "j \<le> 201" for j
    using band_46 [OF freqs_14700 [OF that(2)]] by (simp only: f)
  have "\<exists>s1. iter_next 201 burst_14700 = Some s1 \<and> sweep s1 \<and>
           sampleRate s1 = sampleRate burst_14700 \<and>
           burstMin s1 = burstMin burst_14700 \<and>
           burstCount s1 = burstCount burst_14700 - int 201 \<and>
           numCycle burst_14700 \<le> numCycle s1 \<and> numCycle s1 \<le> 46 \<and>
           nominalFreq s1 = nominalFreq burst_14700 * freqIncr burst_14700 ^ 201 \<and>
           freqIncr s1 = freqIncr burst_14700"
    using b by (intro sweep_ladder) (simp_all add: f)
  then show ?thesis by blast
qed

lemma tbg_14700:
  "\<exists>myRiff myData out. tbg (Argc5 0 1 14700) = Some (myRiff, myData, out)"
proof -
  let ?p = "burst_14700\<lparr>delay := 0\<rparr>"
  have c: "configure (Argc5 0 1 14700) default_burst =
           (default_burst\<lparr>startFreq := 14700\<rparr>)\<lparr>delay := 0\<rparr>"
    by (simp add: default_burst_def toneBurst_fields_def)
  have r: "reset (configure (Argc5 0 1 14700) default_burst) = Some ?p"
    unfolding c reset_delay reset_14700 by simp
  from ladder_14700 obtain s1 where "iter_next 201 burst_14700 = Some s1" by blast
  then have it: "iter_next 201 ?p = Some (s1\<lparr>delay := 0\<rparr>)" by (simp add: iter_next_delay)
  have bc: "burstCount ?p = int 201" "burstCount ?p \<le> 2 ^ 31"
    by (simp_all add: burst_14700_def)
  from burst_loop_iter [OF bc it] obtain out where
    "burst_loop ?p (delay_loop (configure (Argc5 0 1 14700) default_burst) []) =
       Some (s1\<lparr>delay := 0\<rparr>, out)"
    by blast
  then show ?thesis
    unfolding tbg_def ctor_value by (simp add: Let_def r del: configure.simps)
qed

lemma echo_14700:
  "\<exists>c. echo (burst_14700\<lparr>delay := 0\<rparr>) = Some c \<and> sum1 c = 0"
proof -
  let ?p = "burst_14700\<lparr>delay := 0\<rparr>"
  have "burst_sample ?p j = burst_sample burst_14700 j" for j
    unfolding burst_sample_def by simp
  then have silent: "burst_sample ?p j = 0" for j
    by (simp only: silent_14700)
  have h: "0 \<le> duration ?p" "duration ?p \<le> interval ?p"
    by (simp_all add: burst_14700_def default_burst_def toneBurst_fields_def INTERVAL_def)
  from round_trip_sums [OF h] obtain c1 where
    c1: "read_loops ?p (snd (writeBurst ?p [])) = (?p, c1, [])"
      "sum1 c1 = of_nat (nat (numAvg ?p)) *
         (\<Sum>j = 0..<nat (duration ?p).
            of_int (burst_sample ?p (int j)) * exp (Complex 0 (factor ?p) * of_nat j))"
    by blast
  have z: "sum1 c1 = 0" unfolding c1(2) silent by simp
  have d: "real_of_int (wrap_long (duration ?p * numAvg ?p)) * AMPLITUDE / 2.0 \<noteq> 0"
    by (simp add: burst_14700_def default_burst_def toneBurst_fields_def AMPLITUDE_def
        wrap_long_id)
  have "fst (snd (read ?p (snd (writeBurst ?p [])))) \<noteq> None \<and>
        sum1 (the (fst (snd (read ?p (snd (writeBurst ?p [])))))) = 0"
    using d unfolding read_def c1(1) Let_def prod.case by (simp add: z)
  then show ?thesis unfolding echo_def by auto
qed

lemma echo_no_average:
  assumes "numAvg s = 0"
  shows "echo s = None"
proof -
  obtain s1 c rest where l: "read_loops s (snd (writeBurst s [])) = (s1, c, rest)"
    by (cases "read_loops s (snd (writeBurst s []))") auto
  from read_loops_fst [of s "snd (writeBurst s [])"] l have "s1 = s" by simp
  with assms l show ?thesis by (simp add: echo_def read_def Let_def wrap_long_def)
qed

section \<open>The sweep from 22050 Hz\<close>

lemma reset_22050: "reset (default_burst\<lparr>startFreq := 22050\<rparr>) = Some burst_22050"
proof -
  have l: "calc_loop 2 100 1 = Some 50"
    by (simp add: calc_loop_step wrap_long_id calc_loop_exit)
  have d: "long_of_double 100 = 100"
    by (simp add: long_of_double_floor)
  show ?thesis
    by (simp add: reset_def Let_def calc_def default_burst_def toneBurst_fields_def
        burst_22050_def SAMPLE_RATE_def BURST_LENGTH_def INTERVAL_def wrap_long_id l d)
qed

lemma band_50:
  assumes "100 \<le> (x::real)" "x \<le> 22050"
  shows "0 < x \<and> real_of_int 100 \<le> real_of_int 44100 / x * real_of_int 50 \<and>
         real_of_int 44100 / x * real_of_int 50 < 2 ^ 31"
proof -
  have x: "0 < x" using assms by simp
  have "100 * x \<le> 44100 * 50" using assms by simp
  then have a: "100 \<le> 44100 / x * 50" using x by (simp add: field_simps)
  have "44100 * 50 < 2 ^ 31 * x" using assms by simp
  then have b: "44100 / x * 50 < 2 ^ 31" using x by (simp add: field_simps)
  from x a b show ?thesis by simp
qed

lemma freqs_22050:
  assumes "j \<le> 201"
  shows "100 \<le> 22050 * (((10000 / 22050)::real) powr (1 / 200)) ^ j"
    and "22050 * (((10000 / 22050)::real) powr (1 / 200)) ^ j \<le> 22050"
proof -
  let ?r = "((10000 / 22050)::real) powr (1 / 200)"
  have r0: "0 \<le> ?r" by simp
  have r1: "?r \<le> 1" by (rule powr_le1) simp_all
  have p200: "?r ^ 200 = 10000 / 22050" by (rule root_power) simp
  have "?r ^ 200 \<le> ?r ^ 1" using r0 r1 by (intro power_decreasing) simp_all
  then have rlow: "10000 / 22050 \<le> ?r" using p200 by simp
  have "?r ^ 201 \<le> ?r ^ j" using assms r0 r1 by (intro power_decreasing) simp_all
  moreover have "?r ^ 201 = ?r ^ 200 * ?r" using power_add [of ?r 200 1] by simp
  moreover have "10000 / 22050 * (10000 / 22050) \<le> ?r ^ 200 * ?r"
    unfolding p200 using rlow by (intro mult_left_mono) simp_all
  ultimately have "10000 / 22050 * (10000 / 22050) \<le> ?r ^ j" by simp
  then show "100 \<le> 22050 * ?r ^ j" by simp
  have "?r ^ j \<le> 1" using r0 r1 by (rule power_le_one)
  then show "22050 * ?r ^ j \<le> 22050" by simp
qed

lemma ladder_22050: "\<exists>s1. iter_next 201 burst_22050 = Some s1"
proof -
  have f: "sweep burst_22050" "sampleRate burst_22050 = 44100" "burstMin burst_22050 = 100"
    "burstCount burst_22050 = 201" "numCycle burst_22050 = 50" "nominalFreq burst_22050 = 22050"
    "freqIncr burst_22050 = (10000 / 22050) powr (1 / 200)"
    by (simp_all add: burst_22050_def default_burst_def toneBurst_fields_def SAMPLE_RATE_def
        BURST_LENGTH_def)
  have b: "0 < nominalFreq burst_22050 * freqIncr burst_22050 ^ j \<and>
           real_of_int (burstMin burst_22050) \<le>
             real_of_int (sampleRate burst_22050) /
               (nominalFreq burst_22050 * freqIncr burst_22050 ^ j) * real_of_int 50 \<and>
           real_of_int (sampleRate burst_22050) /
               (nominalFreq burst_22050 * freqIncr burst_22050 ^ j) * real_of_int 50 < 2 ^ 31"
    if "1 \<le> j" "j \<le> 201" for j
    using band_50 [OF freqs_22050 [OF that(2)]] by (simp only: f)
  have "\<exists>s1. iter_next 201 burst_22050 = Some s1 \<and> sweep s1 \<and>
           sampleRate s1 = sampleRate burst_22050 \<and>
           burstMin s1 = burstMin burst_22050 \<and>
           burstCount s1 = burstCount burst_22050 - int 201 \<and>
           numCycle burst_22050 \<le> numCycle s1 \<and> numCycle s1 \<le> 50 \<and>
           nominalFreq s1 = nominalFreq burst_22050 * freqIncr burst_22050 ^ 201 \<and>
           freqIncr s1 = freqIncr burst_22050"
    using b by (intro sweep_ladder) (simp_all add: f)
  then show ?thesis by blast
qed

lemma tbg_22050:
  "\<exists>myRiff myData out. tbg (Argc5 0 1 22050) = Some (myRiff, myData, out)"
proof -
  let ?p = "burst_22050\<lparr>delay := 0\<rparr>"
  have c: "configure (Argc5 0 1 22050) default_burst =
           (default_burst\<lparr>startFreq := 22050\<rparr>)\<lparr>delay := 0\<rparr>"
    by (simp add: default_burst_def toneBurst_fields_def)
  have r: "reset (configure (Argc5 0 1 22050) default_burst) = Some ?p"
    unfolding c reset_delay reset_22050 by simp
  from ladder_22050 obtain s1 where "iter_next 201 burst_22050 = Some s1" by blast
  then have it: "iter_next 201 ?p = Some (s1\<lparr>delay := 0\<rparr>)" by (simp add: iter_next_delay)
  have bc: "burstCount ?p = int 201" "burstCount ?p \<le> 2 ^ 31"
    by (simp_all add: burst_22050_def)
  from burst_loop_iter [OF bc it] obtain out where
    "burst_loop ?p (delay_loop (configure (Argc5 0 1 22050) default_burst) []) =
       Some (s1\<lparr>delay := 0\<rparr>, out)"
    by blast
  then show ?thesis
    unfolding tbg_def ctor_value by (simp add: Let_def r del: configure.simps)
qed

lemma sample_22050:
  "burst_sample burst_22050 (int j) = (if j < 100 then (if even j then 0 else - 24000) else 0)"
proof -
  have f: "factor burst_22050 = pi" "duration burst_22050 = 100"
    by (simp_all add: burst_22050_def)
  have c1: "cos (pi * real_of_int (int j)) = (if even j then 1 else - 1)"
    using cos_npi_int [of "int j"] by simp
  have c2: "cos (2 * pi * real_of_int (int j)) = 1"
    by (rule cos_int_2pin)
  have "long_of_double (real_of_int (- 24000)) = - 24000" "long_of_double (real_of_int 0) = 0"
    by (rule long_of_double_int; simp)+
  then have s: "short_of_double (- 24000) = - 24000" "short_of_double 0 = 0"
    by (simp_all add: short_of_double_def wrap_short_id)
  show ?thesis
    unfolding burst_sample_def f c1 c2 by (simp add: AMPLITUDE_def s)
qed

lemma odd_sum: "(\<Sum>j = 0..<2 * n. if even j then 0 else (c::complex)) = of_nat n * c"
  by (induction n) (simp_all add: algebra_simps)

lemma echo_22050:
  "\<exists>c. echo (burst_22050\<lparr>delay := 0\<rparr>) = Some c \<and> sum1 c = 2"
proof -
  let ?p = "burst_22050\<lparr>delay := 0\<rparr>"
  have same: "burst_sample ?p j = burst_sample burst_22050 j" for j
    unfolding burst_sample_def by simp
  have h: "0 \<le> duration ?p" "duration ?p \<le> interval ?p"
    by (simp_all add: burst_22050_def default_burst_def toneBurst_fields_def INTERVAL_def)
  from round_trip_sums [OF h] obtain c1 where
    c1: "read_loops ?p (snd (writeBurst ?p [])) = (?p, c1, [])"
      "sum1 c1 = of_nat (nat (numAvg ?p)) *
         (\<Sum>j = 0..<nat (duration ?p).
            of_int (burst_sample ?p (int j)) * exp (Complex 0 (factor ?p) * of_nat j))"
    by blast
  have e: "exp (Complex 0 (factor ?p) * of_nat j) = (if even j then 1 else - 1)" for j
  proof -
    have "exp (Complex 0 pi * of_nat j) = cis (pi * real j)"
      by (simp add: cis_conv_exp Complex_eq algebra_simps)
    also have "\<dots> = (if even j then 1 else - 1)"
      using cos_npi_int [of "int j"] sin_npi_int [of "int j"] by (simp add: complex_eq_iff)
    finally show ?thesis by (simp add: burst_22050_def)
  qed
  have t: "of_int (burst_sample ?p (int j)) * exp (Complex 0 (factor ?p) * of_nat j) =
           (if even j then 0 else (24000::complex))" if "j < 100" for j
    unfolding same sample_22050 e using that by simp
  have d100: "nat (duration ?p) = 2 * 50" by (simp add: burst_22050_def)
  have "(\<Sum>j = 0..<nat (duration ?p).
            of_int (burst_sample ?p (int j)) * exp (Complex 0 (factor ?p) * of_nat j)) =
        (\<Sum>j = 0..<2 * (50::nat). if even j then 0 else (24000::complex))"
    unfolding d100
  proof (rule sum.cong)
    fix j :: nat
    assume "j \<in> {0..<2 * 50}"
    then have "j < 100" by simp
    then show "of_int (burst_sample ?p (int j)) * exp (Complex 0 (factor ?p) * of_nat j) =
           (if even j then 0 else (24000::complex))" by (rule t)
  qed simp
  also have "\<dots> = 1200000" unfolding odd_sum by simp
  finally have z: "sum1 c1 = 1200000"
    unfolding c1(2) by (simp add: burst_22050_def default_burst_def toneBurst_fields_def)
  have d: "real_of_int (wrap_long (duration ?p * numAvg ?p)) * AMPLITUDE / 2.0 = 600000"
    by (simp add: burst_22050_def default_burst_def toneBurst_fields_def AMPLITUDE_def
        wrap_long_id)
  have "fst (snd (read ?p (snd (writeBurst ?p [])))) \<noteq> None \<and>
        sum1 (the (fst (snd (read ?p (snd (writeBurst ?p [])))))) = 2"
    unfolding read_def c1(1) Let_def prod.case d by (simp add: z)
  then show ?thesis unfolding echo_def by auto
qed

section \<open>Command lines whose round trip fails\<close>

text \<open>
  Claim C1, as the specification words it, fails for three command lines, each with the
  delay 0, the generator run to its end and the analyzer run on the file it left.

  With the start frequency 14700 the first burst has 34 cycles in 102 samples, a third
  of the sample rate, where the second harmonic falls on the fundamental:
  \<open>cos (factor * j) - cos (2 * factor * j)\<close> is 0 at every index, the generator writes
  silence, and the first line of the analyzer has the magnitude 0.

  With the start frequency 22050 the first burst has 50 cycles in 100 samples, half the
  sample rate, where the second harmonic is constant: the samples are 0 and -24000 in
  turn, and the first line of the analyzer has the magnitude 2.

  With the averaging count 0 the generator writes no samples for a burst, and \<open>read\<close>
  divides by \<open>duration * numAvg * AMPLITUDE / 2 = 0\<close>: the first line of the analyzer has
  no finite response.
\<close>

theorem round_trip_counterexample:
  "tbg (Argc5 0 1 14700) \<noteq> None \<and>
   reset (configure (Argc5 0 1 14700) default_burst) = Some (burst_14700\<lparr>delay := 0\<rparr>) \<and>
   tba (Argc5 0 1 14700) (the (tbg (Argc5 0 1 14700))) \<noteq> None \<and>
   fst (the (tba (Argc5 0 1 14700) (the (tbg (Argc5 0 1 14700))))) = Done \<and>
   fst (snd (the (tba (Argc5 0 1 14700) (the (tbg (Argc5 0 1 14700))))) ! 0) =
     burst_14700\<lparr>delay := 0\<rparr> \<and>
   snd (snd (the (tba (Argc5 0 1 14700) (the (tbg (Argc5 0 1 14700))))) ! 0) \<noteq> None \<and>
   cmod (sum1 (the (snd (snd (the (tba (Argc5 0 1 14700) (the (tbg (Argc5 0 1 14700))))) ! 0)))) = 0 \<and>
   tbg (Argc5 0 1 22050) \<noteq> None \<and>
   reset (configure (Argc5 0 1 22050) default_burst) = Some (burst_22050\<lparr>delay := 0\<rparr>) \<and>
   tba (Argc5 0 1 22050) (the (tbg (Argc5 0 1 22050))) \<noteq> None \<and>
   fst (the (tba (Argc5 0 1 22050) (the (tbg (Argc5 0 1 22050))))) = Done \<and>
   fst (snd (the (tba (Argc5 0 1 22050) (the (tbg (Argc5 0 1 22050))))) ! 0) =
     burst_22050\<lparr>delay := 0\<rparr> \<and>
   snd (snd (the (tba (Argc5 0 1 22050) (the (tbg (Argc5 0 1 22050))))) ! 0) \<noteq> None \<and>
   cmod (sum1 (the (snd (snd (the (tba (Argc5 0 1 22050) (the (tbg (Argc5 0 1 22050))))) ! 0)))) = 2 \<and>
   tbg (Argc4 0 0) \<noteq> None \<and>
   tba (Argc4 0 0) (the (tbg (Argc4 0 0))) \<noteq> None \<and>
   fst (snd (the (tba (Argc4 0 0) (the (tbg (Argc4 0 0))))) ! 0) =
     sweep_burst\<lparr>numAvg := 0, delay := 0\<rparr> \<and>
   snd (snd (the (tba (Argc4 0 0) (the (tbg (Argc4 0 0))))) ! 0) = None"
proof -
  let ?A = "Argc5 0 1 14700"
  let ?p = "burst_14700\<lparr>delay := 0\<rparr>"
  from tbg_14700 obtain myRiff myData out where t: "tbg ?A = Some (myRiff, myData, out)"
    by blast
  have c: "configure ?A default_burst = (default_burst\<lparr>startFreq := 14700\<rparr>)\<lparr>delay := 0\<rparr>"
    by (simp add: default_burst_def toneBurst_fields_def)
  have r: "reset (configure ?A default_burst) = Some ?p"
    unfolding c reset_delay reset_14700 by simp
  from tba_on_tbg [OF t] r obtain L where
    L: "tba ?A (myRiff, myData, out) = Some (Done, L)"
      "\<forall>k<nat (burstCount ?p). \<exists>sk. iter_next k ?p = Some sk \<and> L ! k = (sk, echo sk)"
    by auto
  have "0 < nat (burstCount ?p)" by (simp add: burst_14700_def)
  with L(2) have l0: "L ! 0 = (?p, echo ?p)" by fastforce
  from echo_14700 obtain c0 where c0: "echo ?p = Some c0" "sum1 c0 = 0" by blast
  have one: "tbg ?A \<noteq> None \<and> reset (configure ?A default_burst) = Some ?p \<and>
      tba ?A (the (tbg ?A)) \<noteq> None \<and> fst (the (tba ?A (the (tbg ?A)))) = Done \<and>
      fst (snd (the (tba ?A (the (tbg ?A)))) ! 0) = ?p \<and>
      snd (snd (the (tba ?A (the (tbg ?A)))) ! 0) \<noteq> None \<and>
      cmod (sum1 (the (snd (snd (the (tba ?A (the (tbg ?A)))) ! 0)))) = 0"
    using r by (simp add: t L(1) l0 c0)
  let ?N = "Argc5 0 1 22050"
  let ?n = "burst_22050\<lparr>delay := 0\<rparr>"
  from tbg_22050 obtain myRiff2 myData2 out2 where
    t2: "tbg ?N = Some (myRiff2, myData2, out2)" by blast
  have cN: "configure ?N default_burst = (default_burst\<lparr>startFreq := 22050\<rparr>)\<lparr>delay := 0\<rparr>"
    by (simp add: default_burst_def toneBurst_fields_def)
  have r2: "reset (configure ?N default_burst) = Some ?n"
    unfolding cN reset_delay reset_22050 by simp
  from tba_on_tbg [OF t2] r2 obtain L2 where
    L2: "tba ?N (myRiff2, myData2, out2) = Some (Done, L2)"
      "\<forall>k<nat (burstCount ?n). \<exists>sk. iter_next k ?n = Some sk \<and> L2 ! k = (sk, echo sk)"
    by auto
  have "0 < nat (burstCount ?n)" by (simp add: burst_22050_def)
  with L2(2) have l2: "L2 ! 0 = (?n, echo ?n)" by fastforce
  from echo_22050 obtain c2 where c2: "echo ?n = Some c2" "sum1 c2 = 2" by blast
  have two: "tbg ?N \<noteq> None \<and> reset (configure ?N default_burst) = Some ?n \<and>
      tba ?N (the (tbg ?N)) \<noteq> None \<and> fst (the (tba ?N (the (tbg ?N)))) = Done \<and>
      fst (snd (the (tba ?N (the (tbg ?N)))) ! 0) = ?n \<and>
      snd (snd (the (tba ?N (the (tbg ?N)))) ! 0) \<noteq> None \<and>
      cmod (sum1 (the (snd (snd (the (tba ?N (the (tbg ?N)))) ! 0)))) = 2"
    using r2 by (simp add: t2 L2(1) l2 c2)
  let ?B = "Argc4 0 0"
  let ?q = "sweep_burst\<lparr>numAvg := 0, delay := 0\<rparr>"
  have cB: "configure ?B default_burst = default_burst\<lparr>numAvg := 0, delay := 0\<rparr>"
    by (simp add: default_burst_def toneBurst_fields_def)
  from tbg_default_sweep [OF cB] obtain myRiff' myData' out' where
    t': "tbg ?B = Some (myRiff', myData', out')" by blast
  have r': "reset (configure ?B default_burst) = Some ?q"
    unfolding cB reset_default_io by simp
  from tba_on_tbg [OF t'] r' obtain L' where
    L': "tba ?B (myRiff', myData', out') = Some (Done, L')"
      "\<forall>k<nat (burstCount ?q). \<exists>sk. iter_next k ?q = Some sk \<and> L' ! k = (sk, echo sk)"
    by auto
  have "0 < nat (burstCount ?q)" by (simp add: sweep_burst_fields)
  with L'(2) have "L' ! 0 = (?q, echo ?q)" by fastforce
  moreover have "echo ?q = None" by (rule echo_no_average) simp
  ultimately have three: "tbg ?B \<noteq> None \<and> tba ?B (the (tbg ?B)) \<noteq> None \<and>
      fst (snd (the (tba ?B (the (tbg ?B)))) ! 0) = ?q \<and>
      snd (snd (the (tba ?B (the (tbg ?B)))) ! 0) = None"
    by (simp add: t' L'(1))
  from one two three show ?thesis by simp
qed

end
